theory Spec2Isabelle
  imports Main "HOL-Library.Word" "HOL-Library.Multiset" "HOL-Library.Product_Lexorder"
begin

unbundle bit_operations_syntax

section \<open>Go slices of bytes and the parts of package net that routing.go calls\<close>

text \<open>
  A Go slice is either nil or a sequence of elements; routing.go tests addresses against
  nil, so a slice is a \<open>list option\<close> with \<open>None\<close> for nil. \<open>len\<close> of nil is 0 and
  ranging over nil visits nothing.
\<close>

type_synonym byte = "8 word"
type_synonym IP = "byte list option"
type_synonym IPMask = "byte list option"
type_synonym HardwareAddr = "byte list option"

definition len :: "'a list option \<Rightarrow> nat" where
  "len s = (case s of None \<Rightarrow> 0 | Some bs \<Rightarrow> length bs)"

definition elems :: "'a list option \<Rightarrow> 'a list" where
  "elems s = (case s of None \<Rightarrow> [] | Some bs \<Rightarrow> bs)"

text \<open>\<open>bytes.Equal\<close>: equal length and equal contents; a nil argument is an empty slice.\<close>

definition bytes_Equal :: "byte list option \<Rightarrow> byte list option \<Rightarrow> bool" where
  "bytes_Equal a b = (elems a = elems b)"

record IPNet =
  IP :: IP
  Mask :: IPMask

definition IPv4len :: nat where "IPv4len = 4"
definition IPv6len :: nat where "IPv6len = 16"

definition v4InV6Prefix :: "byte list" where
  "v4InV6Prefix = [0, 0, 0, 0, 0, 0, 0, 0, 0, 0, 0xff, 0xff]"

text \<open>\<open>net.IPv4(a, b, c, d)\<close>: the 16-byte form of an IPv4 address.\<close>

definition IPv4 :: "byte \<Rightarrow> byte \<Rightarrow> byte \<Rightarrow> byte \<Rightarrow> IP" where
  "IPv4 a b c d = Some (v4InV6Prefix @ [a, b, c, d])"

definition IPv4zero :: IP where "IPv4zero = IPv4 0 0 0 0"
definition IPv6unspecified :: IP where "IPv6unspecified = Some (replicate 16 0)"

definition isZeros :: "byte list \<Rightarrow> bool" where
  "isZeros p = list_all (\<lambda>b. b = 0) p"

text \<open>\<open>func (ip IP) To4() IP\<close>\<close>

definition To4 :: "IP \<Rightarrow> IP" where
  "To4 ip =
     (if len ip = IPv4len then ip
      else if len ip = IPv6len \<and> isZeros (take 10 (elems ip))
              \<and> elems ip ! 10 = 0xff \<and> elems ip ! 11 = 0xff
           then Some (take 4 (drop 12 (elems ip)))
      else None)"

text \<open>\<open>func (ip IP) To16() IP\<close>\<close>

definition To16 :: "IP \<Rightarrow> IP" where
  "To16 ip =
     (if len ip = IPv4len
        then IPv4 (elems ip ! 0) (elems ip ! 1) (elems ip ! 2) (elems ip ! 3)
      else if len ip = IPv6len then ip
      else None)"

text \<open>\<open>func (ip IP) Equal(x IP) bool\<close>\<close>

definition Equal :: "IP \<Rightarrow> IP \<Rightarrow> bool" where
  "Equal ip x =
     (if len ip = len x then elems ip = elems x
      else if len ip = IPv4len \<and> len x = IPv6len
        then take 12 (elems x) = v4InV6Prefix \<and> elems ip = drop 12 (elems x)
      else if len ip = IPv6len \<and> len x = IPv4len
        then take 12 (elems ip) = v4InV6Prefix \<and> drop 12 (elems ip) = elems x
      else False)"

text \<open>\<open>func (ip IP) IsUnspecified() bool\<close>\<close>

definition IsUnspecified :: "IP \<Rightarrow> bool" where
  "IsUnspecified ip = (Equal ip IPv4zero \<or> Equal ip IPv6unspecified)"

text \<open>
  \<open>func networkNumberAndMask(n *IPNet) (ip IP, m IPMask)\<close>: the address in its shortest
  form with a mask of the same length, or \<open>(nil, nil)\<close> when they do not fit.
\<close>

definition networkNumberAndMask :: "IPNet \<Rightarrow> IP \<times> IPMask" where
  "networkNumberAndMask n =
     (let ip = (if To4 (IP n) = None then IP n else To4 (IP n)) in
      if To4 (IP n) = None \<and> len ip \<noteq> IPv6len then (None, None)
      else
        let m = Mask n in
        if len m = IPv4len then
          (if len ip \<noteq> IPv4len then (None, None) else (ip, m))
        else if len m = IPv6len then
          (if len ip = IPv4len then (ip, Some (drop 12 (elems m))) else (ip, m))
        else (None, None))"

text \<open>
  The comparison loop of \<open>Contains\<close>, over the bytes of the network number, the mask and
  the address. \<open>Contains\<close> enters it only with three sequences of one length.
\<close>

fun maskedEqual :: "byte list \<Rightarrow> byte list \<Rightarrow> byte list \<Rightarrow> bool" where
  "maskedEqual (a # nn) (c # m) (b # ip) =
     (if a AND c \<noteq> b AND c then False else maskedEqual nn m ip)"
| "maskedEqual _ _ _ = True"

text \<open>\<open>func (n *IPNet) Contains(ip IP) bool\<close>\<close>

definition Contains :: "IPNet \<Rightarrow> IP \<Rightarrow> bool" where
  "Contains n ip0 =
     (let (nn, m) = networkNumberAndMask n;
          ip = (if To4 ip0 \<noteq> None then To4 ip0 else ip0);
          l = len ip
      in if l \<noteq> len nn then False
         else maskedEqual (elems nn) (elems m) (elems ip))"

text \<open>\<open>func CIDRMask(ones, bits int) IPMask\<close>; \<open>maskBytes\<close> is its loop.\<close>

fun maskBytes :: "nat \<Rightarrow> nat \<Rightarrow> byte list" where
  "maskBytes 0 n = []"
| "maskBytes (Suc l) n =
     (if n \<ge> 8 then 0xff # maskBytes l (n - 8)
      else NOT (drop_bit n (0xff :: byte)) # maskBytes l 0)"

definition CIDRMask :: "int \<Rightarrow> int \<Rightarrow> IPMask" where
  "CIDRMask ones bits =
     (if bits \<noteq> 8 * int IPv4len \<and> bits \<noteq> 8 * int IPv6len then None
      else if ones < 0 \<or> ones > bits then None
      else Some (maskBytes (nat (bits div 8)) (nat ones)))"

section \<open>Package sort: \<open>sort.Sort\<close> (Go 1.19 and later, pattern-defeating quicksort)\<close>

text \<open>
  \<open>sort.Sort(data)\<close> works through \<open>data.Len()\<close>, \<open>data.Less(i, j)\<close> and
  \<open>data.Swap(i, j)\<close>. Here \<open>data\<close> is the list \<open>xs\<close>, \<open>lt\<close> is the comparison of two
  elements, so that \<open>data.Less(i, j)\<close> is \<open>lt (xs ! i) (xs ! j)\<close>, and \<open>Swap\<close> returns the
  list with two positions exchanged.
\<close>

definition Swap :: "'a list \<Rightarrow> nat \<Rightarrow> nat \<Rightarrow> 'a list" where
  "Swap xs i j = xs[i := xs ! j, j := xs ! i]"

text \<open>\<open>insertionSort(data, a, b)\<close>: the inner loop moves \<open>data[j]\<close> down, the outer loop
  runs \<open>i\<close> from \<open>a + 1\<close> to \<open>b\<close>.\<close>

fun insertDown :: "('a \<Rightarrow> 'a \<Rightarrow> bool) \<Rightarrow> 'a list \<Rightarrow> nat \<Rightarrow> nat \<Rightarrow> 'a list" where
  "insertDown lt xs a j =
     (if j > a \<and> lt (xs ! j) (xs ! (j - 1)) then insertDown lt (Swap xs j (j - 1)) a (j - 1)
      else xs)"

declare insertDown.simps [simp del]

function insertFrom :: "('a \<Rightarrow> 'a \<Rightarrow> bool) \<Rightarrow> 'a list \<Rightarrow> nat \<Rightarrow> nat \<Rightarrow> nat \<Rightarrow> 'a list" where
  "insertFrom lt xs a b i =
     (if i < b then insertFrom lt (insertDown lt xs a i) a b (i + 1) else xs)"
  by pat_completeness auto
termination
  by (relation "measure (\<lambda>(lt, xs, a, b, i). b - i)") auto

declare insertFrom.simps [simp del]

definition insertionSort :: "('a \<Rightarrow> 'a \<Rightarrow> bool) \<Rightarrow> 'a list \<Rightarrow> nat \<Rightarrow> nat \<Rightarrow> 'a list" where
  "insertionSort lt xs a b = insertFrom lt xs a b (a + 1)"

text \<open>\<open>siftDown(data, lo, hi, first)\<close>; the loop variable is \<open>root\<close>, starting at \<open>lo\<close>.\<close>

function siftDown :: "('a \<Rightarrow> 'a \<Rightarrow> bool) \<Rightarrow> 'a list \<Rightarrow> nat \<Rightarrow> nat \<Rightarrow> nat \<Rightarrow> 'a list" where
  "siftDown lt xs root hi first =
     (let child = 2 * root + 1 in
      if child \<ge> hi then xs
      else
        let child = (if child + 1 < hi \<and> lt (xs ! (first + child)) (xs ! (first + child + 1))
                     then child + 1 else child)
        in if \<not> lt (xs ! (first + root)) (xs ! (first + child)) then xs
           else siftDown lt (Swap xs (first + root) (first + child)) child hi first)"
  by pat_completeness auto
termination
  by (relation "measure (\<lambda>(lt, xs, root, hi, first). hi - root)") (auto simp: Let_def)

declare siftDown.simps [simp del]

text \<open>
  \<open>heapSort(data, a, b)\<close>. Both loops count \<open>i\<close> down to 0 inclusive; the second one starts
  at \<open>hi - 1\<close> and does not run when \<open>hi\<close> is 0.
\<close>

fun heapBuild :: "('a \<Rightarrow> 'a \<Rightarrow> bool) \<Rightarrow> 'a list \<Rightarrow> nat \<Rightarrow> nat \<Rightarrow> nat \<Rightarrow> 'a list" where
  "heapBuild lt xs hi first 0 = siftDown lt xs 0 hi first"
| "heapBuild lt xs hi first (Suc i) = heapBuild lt (siftDown lt xs (Suc i) hi first) hi first i"

fun heapPop :: "('a \<Rightarrow> 'a \<Rightarrow> bool) \<Rightarrow> 'a list \<Rightarrow> nat \<Rightarrow> nat \<Rightarrow> 'a list" where
  "heapPop lt xs first 0 = siftDown lt (Swap xs first (first + 0)) 0 0 first"
| "heapPop lt xs first (Suc i) =
     heapPop lt (siftDown lt (Swap xs first (first + Suc i)) 0 (Suc i) first) first i"

definition heapSort :: "('a \<Rightarrow> 'a \<Rightarrow> bool) \<Rightarrow> 'a list \<Rightarrow> nat \<Rightarrow> nat \<Rightarrow> 'a list" where
  "heapSort lt xs a b =
     (let first = a; hi = b - a;
          xs = heapBuild lt xs hi first ((hi - 1) div 2)
      in if hi = 0 then xs else heapPop lt xs first (hi - 1))"

datatype sortedHint = unknownHint | increasingHint | decreasingHint

text \<open>\<open>order2\<close>, \<open>median\<close>, \<open>medianAdjacent\<close>: the counter \<open>*swaps\<close> is passed and returned.\<close>

definition order2 :: "('a \<Rightarrow> 'a \<Rightarrow> bool) \<Rightarrow> 'a list \<Rightarrow> nat \<Rightarrow> nat \<Rightarrow> nat \<Rightarrow> nat \<times> nat \<times> nat" where
  "order2 lt xs a b swaps = (if lt (xs ! b) (xs ! a) then (b, a, swaps + 1) else (a, b, swaps))"

definition median :: "('a \<Rightarrow> 'a \<Rightarrow> bool) \<Rightarrow> 'a list \<Rightarrow> nat \<Rightarrow> nat \<Rightarrow> nat \<Rightarrow> nat \<Rightarrow> nat \<times> nat" where
  "median lt xs a b c swaps =
     (let (a, b, swaps) = order2 lt xs a b swaps;
          (b, c, swaps) = order2 lt xs b c swaps;
          (a, b, swaps) = order2 lt xs a b swaps
      in (b, swaps))"

definition medianAdjacent :: "('a \<Rightarrow> 'a \<Rightarrow> bool) \<Rightarrow> 'a list \<Rightarrow> nat \<Rightarrow> nat \<Rightarrow> nat \<times> nat" where
  "medianAdjacent lt xs a swaps = median lt xs (a - 1) a (a + 1) swaps"

definition choosePivot :: "('a \<Rightarrow> 'a \<Rightarrow> bool) \<Rightarrow> 'a list \<Rightarrow> nat \<Rightarrow> nat \<Rightarrow> nat \<times> sortedHint" where
  "choosePivot lt xs a b =
     (let l = b - a;
          swaps = 0;
          i = a + l div 4 * 1;
          j = a + l div 4 * 2;
          k = a + l div 4 * 3;
          (j, swaps) =
            (if l \<ge> 8 then
               (let (i, j, k, swaps) =
                      (if l \<ge> 50 then
                         (let (i, swaps) = medianAdjacent lt xs i swaps;
                              (j, swaps) = medianAdjacent lt xs j swaps;
                              (k, swaps) = medianAdjacent lt xs k swaps
                          in (i, j, k, swaps))
                       else (i, j, k, swaps))
                in median lt xs i j k swaps)
             else (j, swaps))
      in if swaps = 0 then (j, increasingHint)
         else if swaps = 4 * 3 then (j, decreasingHint)
         else (j, unknownHint))"

function reverseLoop :: "'a list \<Rightarrow> nat \<Rightarrow> nat \<Rightarrow> 'a list" where
  "reverseLoop xs i j = (if i < j then reverseLoop (Swap xs i j) (i + 1) (j - 1) else xs)"
  by pat_completeness auto
termination
  by (relation "measure (\<lambda>(xs, i, j). j - i)") auto

declare reverseLoop.simps [simp del]

text \<open>\<open>reverseRange(data, a, b)\<close>; pdqsort calls it on ranges of more than 12 elements, so
  \<open>b - 1\<close> does not go below 0.\<close>

definition reverseRange :: "'a list \<Rightarrow> nat \<Rightarrow> nat \<Rightarrow> 'a list" where
  "reverseRange xs a b = reverseLoop xs a (b - 1)"

text \<open>\<open>bits.Len(x)\<close>: the number of bits needed to write \<open>x\<close>.\<close>

fun bitsLen :: "nat \<Rightarrow> nat" where
  "bitsLen n = (if n = 0 then 0 else Suc (bitsLen (n div 2)))"

declare bitsLen.simps [simp del]

text \<open>The generator \<open>xorshift\<close> (a uint64) and \<open>nextPowerOfTwo\<close>.\<close>

definition xorshift_Next :: "64 word \<Rightarrow> 64 word" where
  "xorshift_Next r =
     (let r = r XOR push_bit 13 r;
          r = r XOR drop_bit 7 r;
          r = r XOR push_bit 17 r
      in r)"

definition nextPowerOfTwo :: "nat \<Rightarrow> 64 word" where
  "nextPowerOfTwo n = push_bit (bitsLen n) 1"

text \<open>\<open>breakPatterns(data, a, b)\<close>; the loop runs for \<open>i\<close> = 0, 1, 2 and each round draws
  the next random number.\<close>

fun breakLoop :: "'a list \<Rightarrow> nat \<Rightarrow> nat \<Rightarrow> nat \<Rightarrow> 64 word \<Rightarrow> 64 word \<Rightarrow> nat \<Rightarrow> nat \<Rightarrow> 'a list" where
  "breakLoop xs a l idx random modulus i 0 = xs"
| "breakLoop xs a l idx random modulus i (Suc n) =
     (let random = xorshift_Next random;
          other = unat (random AND (modulus - 1));
          other = (if other \<ge> l then other - l else other)
      in breakLoop (Swap xs (idx - 1 + i) (a + other)) a l idx random modulus (i + 1) n)"

definition breakPatterns :: "'a list \<Rightarrow> nat \<Rightarrow> nat \<Rightarrow> 'a list" where
  "breakPatterns xs a b =
     (let l = b - a in
      if l \<ge> 8 then
        (let random = word_of_nat l;
             modulus = nextPowerOfTwo l;
             idx = a + (l div 4) * 2 - 1
         in breakLoop xs a l idx random modulus 0 3)
      else xs)"

text \<open>
  The scanning loops of \<open>partition\<close> and \<open>partitionEqual\<close>: \<open>i\<close> moves up and \<open>j\<close> moves
  down while the element there stands in a given relation to the pivot \<open>data[a]\<close>
  (\<open>up\<close> and \<open>down\<close>, each applied to the element and the pivot). Both functions start \<open>i\<close>
  at \<open>a + 1\<close>, so \<open>i \<le> j\<close> keeps \<open>j\<close> above 0 and \<open>j - 1\<close> is the Go value.
\<close>

function scanUp :: "('a \<Rightarrow> 'a \<Rightarrow> bool) \<Rightarrow> 'a list \<Rightarrow> nat \<Rightarrow> nat \<Rightarrow> nat \<Rightarrow> nat" where
  "scanUp up xs a i j = (if i \<le> j \<and> up (xs ! i) (xs ! a) then scanUp up xs a (i + 1) j else i)"
  by pat_completeness auto
termination
  by (relation "measure (\<lambda>(up, xs, a, i, j). Suc j - i)") auto

declare scanUp.simps [simp del]

fun scanDown :: "('a \<Rightarrow> 'a \<Rightarrow> bool) \<Rightarrow> 'a list \<Rightarrow> nat \<Rightarrow> nat \<Rightarrow> nat \<Rightarrow> nat" where
  "scanDown down xs a i j =
     (if i \<le> j \<and> down (xs ! j) (xs ! a)
      then (case j of 0 \<Rightarrow> j | Suc j' \<Rightarrow> scanDown down xs a i j')
      else j)"

declare scanDown.simps [simp del]

lemma scanUp_ge: "i \<le> scanUp up xs a i j"
proof (induction up xs a i j rule: scanUp.induct)
  case (1 up xs a i j)
  show ?case
  proof (cases "i \<le> j \<and> up (xs ! i) (xs ! a)")
    case True
    with 1 have "i + 1 \<le> scanUp up xs a (i + 1) j" by simp
    with True show ?thesis by (subst scanUp.simps) simp
  next
    case False
    then show ?thesis by (subst scanUp.simps) auto
  qed
qed

lemma scanUp_le: "i \<le> Suc j \<Longrightarrow> scanUp up xs a i j \<le> Suc j"
proof (induction up xs a i j rule: scanUp.induct)
  case (1 up xs a i j)
  show ?case
  proof (cases "i \<le> j \<and> up (xs ! i) (xs ! a)")
    case True
    with 1 have "scanUp up xs a (i + 1) j \<le> Suc j" by simp
    with True show ?thesis by (subst scanUp.simps) simp
  next
    case False
    with 1 show ?thesis by (subst scanUp.simps) auto
  qed
qed

lemma scanDown_le: "scanDown down xs a i j \<le> j"
proof (induction j)
  case 0
  show ?case by (subst scanDown.simps) simp
next
  case (Suc j)
  then show ?case by (subst scanDown.simps) (auto intro: le_SucI)
qed

lemma scanDown_ge: "i \<le> Suc j \<Longrightarrow> i \<le> Suc (scanDown down xs a i j)"
proof (induction j)
  case 0
  then show ?case by (subst scanDown.simps) simp
next
  case (Suc j)
  show ?case
  proof (cases "i \<le> Suc j \<and> down (xs ! Suc j) (xs ! a)")
    case True
    with Suc show ?thesis by (subst scanDown.simps) auto
  next
    case False
    with Suc.prems show ?thesis by (subst scanDown.simps) auto
  qed
qed

text \<open>The \<open>for\<close> loop shared by \<open>partition\<close> and \<open>partitionEqual\<close>; it returns the data
  with \<open>i\<close> and \<open>j\<close> as they are at the \<open>break\<close>.\<close>

function partLoop ::
    "('a \<Rightarrow> 'a \<Rightarrow> bool) \<Rightarrow> ('a \<Rightarrow> 'a \<Rightarrow> bool) \<Rightarrow> 'a list \<Rightarrow> nat \<Rightarrow> nat \<Rightarrow> nat
      \<Rightarrow> 'a list \<times> nat \<times> nat" where
  "partLoop up down xs a i j =
     (let i = scanUp up xs a i j;
          j = scanDown down xs a i j
      in if i > j then (xs, i, j)
         else partLoop up down (Swap xs i j) a (i + 1) (j - 1))"
  by pat_completeness auto
termination
proof (relation "measure (\<lambda>(up, down, xs, a, i, j). Suc j - i)")
  show "wf (measure (\<lambda>(up :: 'a \<Rightarrow> 'a \<Rightarrow> bool, down :: 'a \<Rightarrow> 'a \<Rightarrow> bool, xs :: 'a list,
      a :: nat, i :: nat, j :: nat). Suc j - i))"
    by simp
next
  fix up down :: "'a \<Rightarrow> 'a \<Rightarrow> bool" and xs :: "'a list" and a i j i' j' :: nat
  assume i': "i' = scanUp up xs a i j" and j': "j' = scanDown down xs a i' j"
    and le: "\<not> j' < i'"
  have "i \<le> i'" using i' scanUp_ge by simp
  moreover have "j' \<le> j" using j' scanDown_le by simp
  ultimately show "((up, down, Swap xs i' j', a, i' + 1, j' - 1), (up, down, xs, a, i, j))
      \<in> measure (\<lambda>(up, down, xs, a, i, j). Suc j - i)"
    using le by auto
qed

declare partLoop.simps [simp del]

text \<open>\<open>partition(data, a, b, pivot)\<close> returns \<open>(newpivot, alreadyPartitioned)\<close>; the model
  returns the data too. It is named \<open>partition_pdq\<close>, \<open>partition\<close> being a function of HOL on
  lists.\<close>

definition partition_pdq ::
    "('a \<Rightarrow> 'a \<Rightarrow> bool) \<Rightarrow> 'a list \<Rightarrow> nat \<Rightarrow> nat \<Rightarrow> nat \<Rightarrow> 'a list \<times> nat \<times> bool" where
  "partition_pdq lt xs a b pivot =
     (let xs = Swap xs a pivot;
          i = a + 1; j = b - 1;
          i = scanUp (\<lambda>e p. lt e p) xs a i j;
          j = scanDown (\<lambda>e p. \<not> lt e p) xs a i j
      in if i > j then (Swap xs j a, j, True)
         else
           (let xs = Swap xs i j;
                (xs, i, j) = partLoop (\<lambda>e p. lt e p) (\<lambda>e p. \<not> lt e p) xs a (i + 1) (j - 1)
            in (Swap xs j a, j, False)))"

definition partitionEqual ::
    "('a \<Rightarrow> 'a \<Rightarrow> bool) \<Rightarrow> 'a list \<Rightarrow> nat \<Rightarrow> nat \<Rightarrow> nat \<Rightarrow> 'a list \<times> nat" where
  "partitionEqual lt xs a b pivot =
     (let xs = Swap xs a pivot;
          (xs, i, j) = partLoop (\<lambda>e p. \<not> lt p e) (\<lambda>e p. lt p e) xs a (a + 1) (b - 1)
      in (xs, i))"

text \<open>The loops of \<open>partialInsertionSort\<close>.\<close>

function scanSorted :: "('a \<Rightarrow> 'a \<Rightarrow> bool) \<Rightarrow> 'a list \<Rightarrow> nat \<Rightarrow> nat \<Rightarrow> nat" where
  "scanSorted lt xs i b =
     (if i < b \<and> \<not> lt (xs ! i) (xs ! (i - 1)) then scanSorted lt xs (i + 1) b else i)"
  by pat_completeness auto
termination
  by (relation "measure (\<lambda>(lt, xs, i, b). b - i)") auto

declare scanSorted.simps [simp del]

fun shiftLeft :: "('a \<Rightarrow> 'a \<Rightarrow> bool) \<Rightarrow> 'a list \<Rightarrow> nat \<Rightarrow> 'a list" where
  "shiftLeft lt xs j =
     (if j \<ge> 1 then
        (if \<not> lt (xs ! j) (xs ! (j - 1)) then xs else shiftLeft lt (Swap xs j (j - 1)) (j - 1))
      else xs)"

declare shiftLeft.simps [simp del]

function shiftRight :: "('a \<Rightarrow> 'a \<Rightarrow> bool) \<Rightarrow> 'a list \<Rightarrow> nat \<Rightarrow> nat \<Rightarrow> 'a list" where
  "shiftRight lt xs j b =
     (if j < b then
        (if \<not> lt (xs ! j) (xs ! (j - 1)) then xs else shiftRight lt (Swap xs j (j - 1)) (j + 1) b)
      else xs)"
  by pat_completeness auto
termination
  by (relation "measure (\<lambda>(lt, xs, j, b). b - j)") auto

declare shiftRight.simps [simp del]

text \<open>The outer loop of \<open>partialInsertionSort\<close>; the last argument counts the rounds left
  of \<open>maxSteps = 5\<close>.\<close>

fun partialLoop :: "('a \<Rightarrow> 'a \<Rightarrow> bool) \<Rightarrow> 'a list \<Rightarrow> nat \<Rightarrow> nat \<Rightarrow> nat \<Rightarrow> nat \<Rightarrow> 'a list \<times> bool" where
  "partialLoop lt xs a b i 0 = (xs, False)"
| "partialLoop lt xs a b i (Suc n) =
     (let i = scanSorted lt xs i b in
      if i = b then (xs, True)
      else if b - a < 50 then (xs, False)
      else
        (let xs = Swap xs i (i - 1);
             xs = (if i - a \<ge> 2 then shiftLeft lt xs (i - 1) else xs);
             xs = (if b - i \<ge> 2 then shiftRight lt xs (i + 1) b else xs)
         in partialLoop lt xs a b i n))"

definition partialInsertionSort :: "('a \<Rightarrow> 'a \<Rightarrow> bool) \<Rightarrow> 'a list \<Rightarrow> nat \<Rightarrow> nat \<Rightarrow> 'a list \<times> bool" where
  "partialInsertionSort lt xs a b = partialLoop lt xs a b (a + 1) 5"

text \<open>
  One round of the loop of \<open>pdqsort(data, a, b, limit)\<close> up to its recursive call: either
  the range is finished, or it was split by \<open>partitionEqual\<close> or by \<open>partition\<close>.
\<close>

datatype 'a pdqStep =
    Finished "'a list"
  | EqualSplit "'a list" nat nat                \<comment> \<open>data, mid, limit\<close>
  | Split "'a list" nat bool nat                \<comment> \<open>data, mid, alreadyPartitioned, limit\<close>

definition pdqRound ::
    "('a \<Rightarrow> 'a \<Rightarrow> bool) \<Rightarrow> 'a list \<Rightarrow> nat \<Rightarrow> nat \<Rightarrow> nat \<Rightarrow> bool \<Rightarrow> bool \<Rightarrow> 'a pdqStep" where
  "pdqRound lt xs a b limit wasBalanced wasPartitioned =
     (let l = b - a in
      if l \<le> 12 then Finished (insertionSort lt xs a b)
      else if limit = 0 then Finished (heapSort lt xs a b)
      else
        (let (xs, limit) =
               (if \<not> wasBalanced then (breakPatterns xs a b, limit - 1) else (xs, limit));
             (pivot, hint) = choosePivot lt xs a b;
             (xs, pivot, hint) =
               (if hint = decreasingHint
                then (reverseRange xs a b, (b - 1) - (pivot - a), increasingHint)
                else (xs, pivot, hint));
             (xs, sorted) =
               (if wasBalanced \<and> wasPartitioned \<and> hint = increasingHint
                then partialInsertionSort lt xs a b else (xs, False))
         in if sorted then Finished xs
            else if a > 0 \<and> \<not> lt (xs ! (a - 1)) (xs ! pivot) then
              (let (xs, mid) = partitionEqual lt xs a b pivot in EqualSplit xs mid limit)
            else
              (let (xs, mid, alreadyPartitioned) = partition_pdq lt xs a b pivot
               in Split xs mid alreadyPartitioned limit)))"


lemma scanDown_lower: "lo < i \<Longrightarrow> lo \<le> j \<Longrightarrow> lo \<le> scanDown down xs a i j"
proof (induction j)
  case 0
  then show ?case by (subst scanDown.simps) simp
next
  case (Suc j)
  show ?case
  proof (cases "i \<le> Suc j \<and> down (xs ! Suc j) (xs ! a)")
    case True
    with Suc.prems have "lo \<le> j" by simp
    with Suc.IH Suc.prems True show ?thesis by (subst scanDown.simps) simp
  next
    case False
    with Suc.prems show ?thesis by (subst scanDown.simps) auto
  qed
qed

lemma partLoop_bounds:
  "lo < i \<Longrightarrow> lo \<le> j \<Longrightarrow> partLoop up down xs a i j = (ys, i', j')
    \<Longrightarrow> lo \<le> j' \<and> j' \<le> j \<and> i \<le> i'"
proof (induction up down xs a i j rule: partLoop.induct)
  case (1 up down xs a i j)
  define i1 where "i1 = scanUp up xs a i j"
  define j1 where "j1 = scanDown down xs a i1 j"
  have i1: "i \<le> i1" unfolding i1_def by (rule scanUp_ge)
  have j1: "j1 \<le> j" unfolding j1_def by (rule scanDown_le)
  have lo1: "lo \<le> j1" unfolding j1_def using i1 "1.prems" by (intro scanDown_lower) auto
  show ?case
  proof (cases "i1 > j1")
    case True
    then have "partLoop up down xs a i j = (xs, i1, j1)"
      by (subst partLoop.simps) (simp add: i1_def j1_def Let_def)
    with "1.prems" i1 j1 lo1 show ?thesis by simp
  next
    case False
    then have eq: "partLoop up down xs a i j = partLoop up down (Swap xs i1 j1) a (i1 + 1) (j1 - 1)"
      by (subst partLoop.simps) (simp add: i1_def j1_def Let_def)
    have "lo \<le> j' \<and> j' \<le> j1 - 1 \<and> i1 + 1 \<le> i'"
    proof (rule "1.IH" [OF i1_def j1_def])
      show "\<not> j1 < i1" using False by simp
      show "lo < i1 + 1" using i1 "1.prems" by simp
      show "lo \<le> j1 - 1" using False i1 "1.prems" by simp
      show "partLoop up down (Swap xs i1 j1) a (i1 + 1) (j1 - 1) = (ys, i', j')"
        using eq "1.prems" by simp
    qed
    with i1 j1 show ?thesis by linarith
  qed
qed

lemma partition_bounds:
  assumes "a < b" and "partition_pdq lt xs a b pivot = (ys, mid, ap)"
  shows "a \<le> mid \<and> mid < b"
proof -
  define xs1 where "xs1 = Swap xs a pivot"
  define i1 where "i1 = scanUp (\<lambda>e p. lt e p) xs1 a (a + 1) (b - 1)"
  define j1 where "j1 = scanDown (\<lambda>e p. \<not> lt e p) xs1 a i1 (b - 1)"
  have i1: "a + 1 \<le> i1" unfolding i1_def by (rule scanUp_ge)
  have j1: "j1 \<le> b - 1" unfolding j1_def by (rule scanDown_le)
  have lo1: "a \<le> j1" unfolding j1_def using i1 assms(1) by (intro scanDown_lower) auto
  show ?thesis
  proof (cases "i1 > j1")
    case True
    then have "partition_pdq lt xs a b pivot = (Swap xs1 j1 a, j1, True)"
      by (simp add: partition_pdq_def Let_def xs1_def i1_def j1_def)
    with assms j1 lo1 show ?thesis by auto
  next
    case False
    obtain zs i2 j2 where pl:
      "partLoop (\<lambda>e p. lt e p) (\<lambda>e p. \<not> lt e p) (Swap xs1 i1 j1) a (i1 + 1) (j1 - 1) = (zs, i2, j2)"
      by (metis prod_cases3)
    have "a \<le> j2 \<and> j2 \<le> j1 - 1 \<and> i1 + 1 \<le> i2"
      using partLoop_bounds [OF _ _ pl, of a] False i1 by simp
    moreover have "partition_pdq lt xs a b pivot = (Swap zs j2 a, j2, False)"
      using False pl by (simp add: partition_pdq_def Let_def xs1_def i1_def j1_def)
    ultimately show ?thesis using assms j1 by auto
  qed
qed

lemma partitionEqual_bounds:
  assumes "a < b" and "partitionEqual lt xs a b pivot = (ys, mid)"
  shows "a < mid"
proof -
  obtain zs i2 j2 where pl:
    "partLoop (\<lambda>e p. \<not> lt p e) (\<lambda>e p. lt p e) (Swap xs a pivot) a (a + 1) (b - 1) = (zs, i2, j2)"
    by (metis prod_cases3)
  have "a \<le> j2 \<and> j2 \<le> b - 1 \<and> a + 1 \<le> i2"
    using partLoop_bounds [OF _ _ pl, of a] assms(1) by simp
  moreover have "mid = i2" using assms(2) pl by (simp add: partitionEqual_def Let_def)
  ultimately show ?thesis by simp
qed

lemma pdqRound_EqualSplit:
  assumes "pdqRound lt xs a b limit wb wp = EqualSplit ys mid limit'"
  shows "a < mid \<and> a < b"
proof -
  have l: "12 < b - a"
    using assms by (auto simp: pdqRound_def Let_def split: if_splits prod.splits)
  obtain zs pivot where "partitionEqual lt zs a b pivot = (ys, mid)"
    using assms by (auto simp: pdqRound_def Let_def split: if_splits prod.splits)
  with partitionEqual_bounds [of a b lt zs pivot ys mid] l show ?thesis by simp
qed

lemma pdqRound_Split:
  assumes "pdqRound lt xs a b limit wb wp = Split ys mid ap limit'"
  shows "a \<le> mid \<and> mid < b"
proof -
  have l: "12 < b - a"
    using assms by (auto simp: pdqRound_def Let_def split: if_splits prod.splits)
  obtain zs pivot where "partition_pdq lt zs a b pivot = (ys, mid, ap)"
    using assms by (auto simp: pdqRound_def Let_def split: if_splits prod.splits)
  with partition_bounds [of a b lt zs pivot ys mid ap] l show ?thesis by simp
qed

text \<open>
  The loop of \<open>pdqsort\<close>. The two flags are local variables of the Go function, both true
  when it is entered; a recursive call \<open>pdqsort(data, a, mid, limit)\<close> is the loop entered
  afresh, and what it leaves in \<open>data\<close> is what the next round works on.
\<close>

function pdqLoop ::
    "('a \<Rightarrow> 'a \<Rightarrow> bool) \<Rightarrow> 'a list \<Rightarrow> nat \<Rightarrow> nat \<Rightarrow> nat \<Rightarrow> bool \<Rightarrow> bool \<Rightarrow> 'a list" where
  "pdqLoop lt xs a b limit wasBalanced wasPartitioned =
     (case pdqRound lt xs a b limit wasBalanced wasPartitioned of
        Finished ys \<Rightarrow> ys
      | EqualSplit ys mid limit' \<Rightarrow> pdqLoop lt ys mid b limit' wasBalanced wasPartitioned
      | Split ys mid alreadyPartitioned limit' \<Rightarrow>
          (let leftLen = mid - a; rightLen = b - mid; balanceThreshold = (b - a) div 8 in
           if leftLen < rightLen then
             pdqLoop lt (pdqLoop lt ys a mid limit' True True) (mid + 1) b limit'
               (leftLen \<ge> balanceThreshold) alreadyPartitioned
           else
             pdqLoop lt (pdqLoop lt ys (mid + 1) b limit' True True) a mid limit'
               (rightLen \<ge> balanceThreshold) alreadyPartitioned))"
  by pat_completeness auto
termination
proof (relation "measure (\<lambda>(lt, xs, a, b, limit, wb, wp). b - a)", goal_cases)
  case 1
  show ?case by simp
next
  case (2 lt xs a b limit wb wp ys mid limit')
  then show ?case using pdqRound_EqualSplit [of lt xs a b limit wb wp ys mid limit'] by auto
next
  case (3 lt xs a b limit wb wp ys mid ap limit')
  then show ?case using pdqRound_Split [of lt xs a b limit wb wp ys mid ap limit'] by auto
next
  case (4 lt xs a b limit wb wp ys mid ap limit')
  then show ?case using pdqRound_Split [of lt xs a b limit wb wp ys mid ap limit'] by auto
next
  case (5 lt xs a b limit wb wp ys mid ap limit')
  then show ?case using pdqRound_Split [of lt xs a b limit wb wp ys mid ap limit'] by auto
next
  case (6 lt xs a b limit wb wp ys mid ap limit')
  then show ?case using pdqRound_Split [of lt xs a b limit wb wp ys mid ap limit'] by auto
qed

declare pdqLoop.simps [simp del]

definition pdqsort :: "('a \<Rightarrow> 'a \<Rightarrow> bool) \<Rightarrow> 'a list \<Rightarrow> nat \<Rightarrow> nat \<Rightarrow> nat \<Rightarrow> 'a list" where
  "pdqsort lt xs a b limit = pdqLoop lt xs a b limit True True"

text \<open>\<open>sort.Sort(data)\<close>\<close>

definition Sort :: "('a \<Rightarrow> 'a \<Rightarrow> bool) \<Rightarrow> 'a list \<Rightarrow> 'a list" where
  "Sort lt xs =
     (let n = length xs in
      if n \<le> 1 then xs
      else pdqsort lt xs 0 n (bitsLen n))"

section \<open>routing.go\<close>

record rtInfo =
  Dst :: IPNet
  Src :: IPNet
  InputIface :: "64 word"
  OutputIface :: "64 word"
  Gateway :: IP
  Priority :: "32 word"
  PrefSrc :: IP
  Metrics :: "64 word"

text \<open>The zero value of \<open>net.IPNet\<close> and of \<open>rtInfo\<close> (\<open>rtInfo{}\<close>).\<close>

definition zeroIPNet :: IPNet where
  "zeroIPNet = \<lparr>IP = None, Mask = None\<rparr>"

definition zero_rtInfo :: rtInfo where
  "zero_rtInfo = \<lparr>Dst = zeroIPNet, Src = zeroIPNet, InputIface = 0, OutputIface = 0,
     Gateway = None, Priority = 0, PrefSrc = None, Metrics = 0\<rparr>"

text \<open>The inner loop of \<open>countMaskOnes\<close>: clear the lowest set bit until none is left.\<close>

function clearBits :: "byte \<Rightarrow> nat \<Rightarrow> nat" where
  "clearBits each cnt =
     (if each \<noteq> 0 then clearBits (each AND (each - 1)) (cnt + 1) else cnt)"
  by pat_completeness auto
termination
proof (relation "measure (\<lambda>(each, cnt). unat each)")
  show "wf (measure (\<lambda>(each :: byte, cnt :: nat). unat each))" by simp
next
  fix each :: byte and cnt :: nat
  assume nz: "each \<noteq> 0"
  have "each AND (each - 1) \<le> each - 1" by (rule word_and_le1)
  moreover have "each - 1 < each" using nz by (simp add: word_less_nat_alt unat_minus_one unat_gt_0)
  ultimately have "each AND (each - 1) < each" by simp
  then show "((each AND (each - 1), cnt + 1), (each, cnt)) \<in> measure (\<lambda>(each, cnt). unat each)"
    by (simp add: word_less_nat_alt)
qed

declare clearBits.simps [simp del]

fun countOnesLoop :: "byte list \<Rightarrow> nat \<Rightarrow> nat" where
  "countOnesLoop [] cnt = cnt"
| "countOnesLoop (each # rest) cnt = countOnesLoop rest (clearBits each cnt)"

definition countMaskOnes :: "IPMask \<Rightarrow> nat" where
  "countMaskOnes m = countOnesLoop (elems m) 0"

type_synonym routeSlice = "rtInfo list"

text \<open>
  \<open>routeSlice.Less(i, j)\<close> compares the entries at two positions; \<open>rtLess\<close> is its body on
  the two entries. Priority is an int32 and Metrics an int64, compared as signed values.
\<close>

definition rtLess :: "rtInfo \<Rightarrow> rtInfo \<Rightarrow> bool" where
  "rtLess ri rj =
     (let onesI = countMaskOnes (Mask (Dst ri));
          onesJ = countMaskOnes (Mask (Dst rj))
      in if onesI = onesJ then
           (if Priority ri = Priority rj then sint (Metrics ri) < sint (Metrics rj)
            else sint (Priority ri) < sint (Priority rj))
         else onesI > onesJ)"

definition Less :: "routeSlice \<Rightarrow> nat \<Rightarrow> nat \<Rightarrow> bool" where
  "Less r i j = rtLess (r ! i) (r ! j)"

text \<open>\<open>net.Interface\<close>\<close>

record Interface =
  Index :: int
  MTU :: int
  Name :: string
  HardwareAddr :: HardwareAddr
  Flags :: nat

text \<open>\<open>ipAddrs\<close>; its fields are \<open>v4\<close> and \<open>v6\<close> in the source, as the router's are.\<close>

record ipAddrs =
  addrs_v4 :: "IPNet list"
  addrs_v6 :: "IPNet list"

text \<open>
  The router. Its two Go maps are association lists with one pair for each key: \<open>map_of\<close>
  is the lookup \<open>m[k]\<close>, and the order of the list is the order in which a \<open>range\<close> over
  the map visits the pairs, which Go leaves open. Whatever holds for every list holds for
  every order of visit.
\<close>

record router =
  ifaces :: "(64 word \<times> Interface) list"
  addrs :: "(64 word \<times> ipAddrs) list"
  v4 :: routeSlice
  v6 :: routeSlice

datatype error =
    NoRouteFound IP             \<comment> \<open>"no route found for dst"\<close>
  | NoOutputIfaceFound IP       \<comment> \<open>"no output interface found for dst"\<close>
  | NoSrcFound IP               \<comment> \<open>"no src found for dst"\<close>
  | InvalidIP                   \<comment> \<open>"IP is not valid as IPv4 or IPv6"\<close>
  | Errno nat                   \<comment> \<open>an error handed up from a system call\<close>

text \<open>The loop of \<open>route\<close> that looks for the matching entry (lines 130 to 142).\<close>

fun matchLoop :: "64 word \<Rightarrow> IP \<Rightarrow> IP \<Rightarrow> routeSlice \<Rightarrow> rtInfo option" where
  "matchLoop input src dst [] = None"
| "matchLoop input src dst (rt # rs) =
     (if \<not> Contains (Dst rt) dst then matchLoop input src dst rs
      else if \<not> Contains (Src rt) src then matchLoop input src dst rs
      else if InputIface rt \<noteq> 0 \<and> input \<noteq> 0 \<and> InputIface rt \<noteq> input
        then matchLoop input src dst rs
      else Some rt)"

definition familyAddrs :: "bool \<Rightarrow> ipAddrs \<Rightarrow> IPNet list" where
  "familyAddrs ipv6 ifaceAddrs = (if ipv6 then addrs_v6 ifaceAddrs else addrs_v4 ifaceAddrs)"

text \<open>
  The searches when no output interface is set: over one interface's addresses (inner
  loops, lines 162 and 178) and over all interfaces (outer loops, lines 155 and 171). The
  state is \<open>(iface, preferredSrc)\<close>; a later hit overwrites an earlier one.
\<close>

fun eqInner :: "IP \<Rightarrow> IP \<Rightarrow> 64 word \<Rightarrow> IPNet list \<Rightarrow> 64 word \<times> IP \<Rightarrow> 64 word \<times> IP" where
  "eqInner gateway prefSrc i [] st = st"
| "eqInner gateway prefSrc i (each # rest) st =
     eqInner gateway prefSrc i rest
       (if Contains each gateway \<and> Equal (IP each) prefSrc then (i, IP each) else st)"

fun eqOuter :: "IP \<Rightarrow> IP \<Rightarrow> bool \<Rightarrow> (64 word \<times> ipAddrs) list \<Rightarrow> 64 word \<times> IP \<Rightarrow> 64 word \<times> IP" where
  "eqOuter gateway prefSrc ipv6 [] st = st"
| "eqOuter gateway prefSrc ipv6 ((i, ifaceAddrs) # rest) st =
     eqOuter gateway prefSrc ipv6 rest
       (eqInner gateway prefSrc i (familyAddrs ipv6 ifaceAddrs) st)"

fun anyInner :: "IP \<Rightarrow> 64 word \<Rightarrow> IPNet list \<Rightarrow> 64 word \<times> IP \<Rightarrow> 64 word \<times> IP" where
  "anyInner gateway i [] st = st"
| "anyInner gateway i (each # rest) st =
     anyInner gateway i rest (if Contains each gateway then (i, IP each) else st)"

fun anyOuter :: "IP \<Rightarrow> bool \<Rightarrow> (64 word \<times> ipAddrs) list \<Rightarrow> 64 word \<times> IP \<Rightarrow> 64 word \<times> IP" where
  "anyOuter gateway ipv6 [] st = st"
| "anyOuter gateway ipv6 ((i, ifaceAddrs) # rest) st =
     anyOuter gateway ipv6 rest (anyInner gateway i (familyAddrs ipv6 ifaceAddrs) st)"

text \<open>
  The searches over the addresses of the entry's output interface (lines 200 and 207);
  the state is \<open>preferredSrc\<close>.
\<close>

fun eqPinned :: "IP \<Rightarrow> IP \<Rightarrow> IPNet list \<Rightarrow> IP \<Rightarrow> IP" where
  "eqPinned gateway prefSrc [] preferredSrc = preferredSrc"
| "eqPinned gateway prefSrc (each # rest) preferredSrc =
     eqPinned gateway prefSrc rest
       (if Contains each gateway \<and> Equal (IP each) prefSrc then IP each else preferredSrc)"

fun anyPinned :: "IP \<Rightarrow> IPNet list \<Rightarrow> IP \<Rightarrow> IP" where
  "anyPinned gateway [] preferredSrc = preferredSrc"
| "anyPinned gateway (each # rest) preferredSrc =
     anyPinned gateway rest (if Contains each gateway then IP each else preferredSrc)"

text \<open>
  The results of \<open>route\<close> are named, \<open>(iface, gateway, preferredSrc, err)\<close>, and a
  \<open>return\<close> hands back whatever they hold at that moment, also next to an error.
\<close>

type_synonym routeResult = "64 word \<times> IP \<times> IP \<times> error option"

definition gatewayOf :: "rtInfo \<Rightarrow> IP \<Rightarrow> IP" where
  "gatewayOf matchedRtInfo dst =
     (if Gateway matchedRtInfo = None \<or> IsUnspecified (Gateway matchedRtInfo) then dst
      else Gateway matchedRtInfo)"

text \<open>Lines 148 to 218 of \<open>route\<close>: what follows once an entry has matched.\<close>

definition routeMatched :: "router \<Rightarrow> rtInfo \<Rightarrow> IP \<Rightarrow> bool \<Rightarrow> routeResult" where
  "routeMatched r matchedRtInfo dst ipv6 =
     (let gateway = gatewayOf matchedRtInfo dst in
      if OutputIface matchedRtInfo = 0 then
        (let st0 = (0, None);
             st1 = (if PrefSrc matchedRtInfo \<noteq> None
                    then eqOuter gateway (PrefSrc matchedRtInfo) ipv6 (addrs r) st0 else st0);
             st2 = (if snd st1 = None then anyOuter gateway ipv6 (addrs r) st1 else st1)
         in if snd st2 = None then (fst st2, gateway, None, Some (NoSrcFound dst))
            else (fst st2, gateway, snd st2, None))
      else
        (let iface = OutputIface matchedRtInfo in
         case map_of (addrs r) iface of
           None \<Rightarrow> (iface, gateway, None, Some (NoOutputIfaceFound dst))
         | Some ifaceAddrs \<Rightarrow>
             (let as = familyAddrs ipv6 ifaceAddrs;
                  p1 = (if PrefSrc matchedRtInfo \<noteq> None
                        then eqPinned gateway (PrefSrc matchedRtInfo) as None else None);
                  p2 = (if p1 = None then anyPinned gateway as p1 else p1)
              in if p2 = None then (iface, gateway, None, Some (NoSrcFound dst))
                 else (iface, gateway, p2, None))))"

definition route :: "router \<Rightarrow> 64 word \<Rightarrow> IP \<Rightarrow> IP \<Rightarrow> bool \<Rightarrow> routeResult" where
  "route r input src dst ipv6 =
     (let rs = (if ipv6 then v6 r else v4 r) in
      case matchLoop input src dst rs of
        None \<Rightarrow> (0, None, None, Some (NoRouteFound dst))
      | Some matchedRtInfo \<Rightarrow> routeMatched r matchedRtInfo dst ipv6)"

text \<open>The loop of \<open>RouteWithSrc\<close> over the interfaces (lines 96 to 102).\<close>

fun inputLoop :: "HardwareAddr \<Rightarrow> (64 word \<times> Interface) list \<Rightarrow> 64 word" where
  "inputLoop input [] = - 1"
| "inputLoop input ((i, iface) # rest) =
     (if bytes_Equal input (HardwareAddr iface) then i else inputLoop input rest)"

definition RouteWithSrc ::
    "router \<Rightarrow> HardwareAddr \<Rightarrow> IP \<Rightarrow> IP \<Rightarrow> Interface option \<times> IP \<times> IP \<times> error option" where
  "RouteWithSrc r input src dst =
     (let inputIndex = (if input \<noteq> None then inputLoop input (ifaces r) else 0);
          (ifaceIndex, gateway, preferredSrc, err) =
            (if To4 dst \<noteq> None then route r inputIndex src dst False
             else if To16 dst \<noteq> None then route r inputIndex src dst True
             else (0, None, None, Some InvalidIP))
      in if err \<noteq> None then (None, gateway, preferredSrc, err)
         else (map_of (ifaces r) ifaceIndex, gateway, preferredSrc, err))"

definition Route :: "router \<Rightarrow> IP \<Rightarrow> Interface option \<times> IP \<times> IP \<times> error option" where
  "Route r dst = RouteWithSrc r None None dst"


section \<open>routing\_linux.go\<close>

text \<open>\<open>routeInfoInMemory\<close> (struct rtmsg); its last field is \<open>Flags\<close> in the source.\<close>

record routeInfoInMemory =
  Family :: byte
  DstLen :: byte
  SrcLen :: byte
  TOS :: byte
  Table :: byte
  Protocol :: byte
  Scope :: byte
  Type :: byte
  RtFlags :: "32 word"

text \<open>\<open>syscall.NetlinkRouteAttr\<close>: \<open>Attr.Type\<close> and \<open>Value\<close>.\<close>

record NetlinkRouteAttr =
  AttrType :: "16 word"
  Value :: "byte list"

text \<open>
  A netlink message as \<open>setupRouteTable\<close> reads it: \<open>Header.Type\<close>, the rtmsg that the
  cast of \<open>&m.Data[0]\<close> yields, and what \<open>syscall.ParseNetlinkRouteAttr(&m)\<close> returns.
\<close>

record NetlinkMessage =
  HeaderType :: "16 word"
  Rtmsg :: routeInfoInMemory
  ParsedAttrs :: "error + NetlinkRouteAttr list"

definition AF_INET :: byte where "AF_INET = 2"
definition AF_INET6 :: byte where "AF_INET6 = 10"
definition NLMSG_DONE :: "16 word" where "NLMSG_DONE = 3"
definition RTM_NEWROUTE :: "16 word" where "RTM_NEWROUTE = 24"
definition RTA_DST :: "16 word" where "RTA_DST = 1"
definition RTA_SRC :: "16 word" where "RTA_SRC = 2"
definition RTA_IIF :: "16 word" where "RTA_IIF = 3"
definition RTA_OIF :: "16 word" where "RTA_OIF = 4"
definition RTA_GATEWAY :: "16 word" where "RTA_GATEWAY = 5"
definition RTA_PRIORITY :: "16 word" where "RTA_PRIORITY = 6"
definition RTA_PREFSRC :: "16 word" where "RTA_PREFSRC = 7"
definition RTA_METRICS :: "16 word" where "RTA_METRICS = 8"

text \<open>\<open>*(*int32)(unsafe.Pointer(&attr.Value[0]))\<close>: the first four bytes of the value
  read as an int32 in the byte order of the host, here little-endian.\<close>

definition int32At :: "byte list \<Rightarrow> 32 word" where
  "int32At v = word_rcat [v ! 3, v ! 2, v ! 1, v ! 0]"

text \<open>The loop over the attributes of one route (lines 56 to 81).\<close>

fun attrLoop :: "routeInfoInMemory \<Rightarrow> NetlinkRouteAttr list \<Rightarrow> rtInfo \<Rightarrow> rtInfo" where
  "attrLoop rt [] routeInfo = routeInfo"
| "attrLoop rt (attr # rest) routeInfo =
     attrLoop rt rest
       (if AttrType attr = RTA_DST then
          routeInfo\<lparr>Dst := \<lparr>IP = Some (Value attr),
            Mask = CIDRMask (uint (DstLen rt)) (int (length (Value attr)) * 8)\<rparr>\<rparr>
        else if AttrType attr = RTA_SRC then
          routeInfo\<lparr>Src := \<lparr>IP = Some (Value attr),
            Mask = CIDRMask (uint (SrcLen rt)) (int (length (Value attr)) * 8)\<rparr>\<rparr>
        else if AttrType attr = RTA_IIF then
          routeInfo\<lparr>InputIface := scast (int32At (Value attr))\<rparr>
        else if AttrType attr = RTA_OIF then
          routeInfo\<lparr>OutputIface := scast (int32At (Value attr))\<rparr>
        else if AttrType attr = RTA_GATEWAY then
          routeInfo\<lparr>Gateway := Some (Value attr)\<rparr>
        else if AttrType attr = RTA_PRIORITY then
          routeInfo\<lparr>Priority := int32At (Value attr)\<rparr>
        else if AttrType attr = RTA_PREFSRC then
          routeInfo\<lparr>PrefSrc := Some (Value attr)\<rparr>
        else if AttrType attr = RTA_METRICS then
          routeInfo\<lparr>Metrics := scast (int32At (Value attr))\<rparr>
        else routeInfo)"

definition linuxRouteInfo :: "routeInfoInMemory \<Rightarrow> NetlinkRouteAttr list \<Rightarrow> rtInfo" where
  "linuxRouteInfo rt attrs = attrLoop rt attrs zero_rtInfo"

text \<open>The loop over the messages (lines 42 to 88): it stops at \<open>NLMSG_DONE\<close>, returns the
  error of a failed attribute parse, and skips routes of other families.\<close>

fun msgLoop :: "NetlinkMessage list \<Rightarrow> router \<Rightarrow> error + router" where
  "msgLoop [] r = Inr r"
| "msgLoop (m # msgs) r =
     (if HeaderType m = NLMSG_DONE then Inr r
      else if HeaderType m = RTM_NEWROUTE then
        (case ParsedAttrs m of
           Inl err \<Rightarrow> Inl err
         | Inr attrs \<Rightarrow>
             (let rt = Rtmsg m in
              if Family rt \<noteq> AF_INET \<and> Family rt \<noteq> AF_INET6 then msgLoop msgs r
              else
                (let routeInfo = linuxRouteInfo rt attrs in
                 if Family rt = AF_INET then msgLoop msgs (r\<lparr>v4 := v4 r @ [routeInfo]\<rparr>)
                 else msgLoop msgs (r\<lparr>v6 := v6 r @ [routeInfo]\<rparr>))))
      else msgLoop msgs r)"

text \<open>\<open>sort.Sort(r.v4); sort.Sort(r.v6)\<close>, the end of \<open>setupRouteTable\<close> on both systems.\<close>

definition sortRoutes :: "router \<Rightarrow> router" where
  "sortRoutes r = r\<lparr>v4 := Sort rtLess (v4 r), v6 := Sort rtLess (v6 r)\<rparr>"

text \<open>\<open>setupRouteTable\<close> on Linux; the argument is what \<open>syscall.NetlinkRIB\<close> and
  \<open>syscall.ParseNetlinkMessage\<close> give, an error or the messages.\<close>

definition setupRouteTable_linux :: "error + NetlinkMessage list \<Rightarrow> router \<Rightarrow> error + router" where
  "setupRouteTable_linux tab r =
     (case tab of
        Inl err \<Rightarrow> Inl err
      | Inr msgs \<Rightarrow>
          (case msgLoop msgs r of
             Inl err \<Rightarrow> Inl err
           | Inr r' \<Rightarrow> Inr (sortRoutes r')))"

section \<open>routing\_windows.go\<close>

text \<open>
  The fields of \<open>mibIPForwardRow2\<close> that \<open>setupRouteTable\<close> reads. \<open>Prefix\<close> and \<open>NextHop\<close>
  are the 28 bytes of a \<open>sockaddrINet\<close>: read as a \<open>sockaddrIN\<close> the address is bytes 4 to 7,
  read as a \<open>sockaddrIN6\<close> it is bytes 8 to 23.
\<close>

record ipAddressPrefix =
  Prefix :: "byte list"
  PrefixLength :: byte

record mibIPForwardRow2 =
  InterfaceIndex :: "32 word"
  DestinationPrefix :: ipAddressPrefix
  NextHop :: "byte list"
  Metric :: "32 word"

definition SinAddr :: "byte list \<Rightarrow> byte list" where
  "SinAddr sockaddr = take 4 (drop 4 sockaddr)"

definition Sin6Addr :: "byte list \<Rightarrow> byte list" where
  "Sin6Addr sockaddr = take 16 (drop 8 sockaddr)"

definition windowsRouteInfo4 :: "mibIPForwardRow2 \<Rightarrow> rtInfo" where
  "windowsRouteInfo4 row = zero_rtInfo
     \<lparr>Dst := \<lparr>IP = Some (SinAddr (Prefix (DestinationPrefix row))),
              Mask = CIDRMask (uint (PrefixLength (DestinationPrefix row))) 32\<rparr>,
      OutputIface := ucast (InterfaceIndex row),
      Gateway := Some (SinAddr (NextHop row)),
      Metrics := ucast (Metric row)\<rparr>"

definition windowsRouteInfo6 :: "mibIPForwardRow2 \<Rightarrow> rtInfo" where
  "windowsRouteInfo6 row = zero_rtInfo
     \<lparr>Dst := \<lparr>IP = Some (Sin6Addr (Prefix (DestinationPrefix row))),
              Mask = CIDRMask (uint (PrefixLength (DestinationPrefix row))) 128\<rparr>,
      OutputIface := ucast (InterfaceIndex row),
      Gateway := Some (Sin6Addr (NextHop row)),
      Metrics := ucast (Metric row)\<rparr>"

text \<open>\<open>setupRouteTable\<close> on Windows; the arguments are what the two calls of
  \<open>GetIpForwardTable2\<close> give, an error or the rows of the table.\<close>

definition setupRouteTable_windows ::
    "error + mibIPForwardRow2 list \<Rightarrow> error + mibIPForwardRow2 list \<Rightarrow> router \<Rightarrow> error + router" where
  "setupRouteTable_windows table4 table6 r =
     (case table4 of
        Inl err \<Rightarrow> Inl err
      | Inr rows4 \<Rightarrow>
          (let r = r\<lparr>v4 := v4 r @ map windowsRouteInfo4 rows4\<rparr> in
           case table6 of
             Inl err \<Rightarrow> Inl err
           | Inr rows6 \<Rightarrow>
               (let r = r\<lparr>v6 := v6 r @ map windowsRouteInfo6 rows6\<rparr> in
                Inr (sortRoutes r))))"

section \<open>The specification's lookup predicate\<close>

text \<open>
  The three conditions of the specification's step 2, in its words: the entry's
  destination contains the destination; the entry's source contains the source, where an
  absent source of the entry (the zero value of \<open>net.IPNet\<close>) is treated as matching
  everything; and the entry's input interface is absent (0), or the caller's is absent or
  zero, or they are equal. Containment is \<open>Contains\<close>.
\<close>

definition lookupPredicate :: "64 word \<Rightarrow> IP \<Rightarrow> IP \<Rightarrow> rtInfo \<Rightarrow> bool" where
  "lookupPredicate input src dst e =
     (Contains (Dst e) dst \<and> (Src e = zeroIPNet \<or> Contains (Src e) src)
      \<and> (InputIface e = 0 \<or> input = 0 \<or> InputIface e = input))"

text \<open>
  \<open>loopTest\<close> is the test that the loop of \<open>route\<close> makes on an entry (lines 131 to 139 of
  routing.go): the entry is taken when none of the three \<open>continue\<close> statements is reached.
\<close>

definition loopTest :: "64 word \<Rightarrow> IP \<Rightarrow> IP \<Rightarrow> rtInfo \<Rightarrow> bool" where
  "loopTest input src dst e =
     (\<not> (\<not> Contains (Dst e) dst) \<and> \<not> (\<not> Contains (Src e) src)
      \<and> \<not> (InputIface e \<noteq> 0 \<and> input \<noteq> 0 \<and> InputIface e \<noteq> input))"

section \<open>The addresses a resolution searches\<close>

text \<open>
  \<open>assigned\<close> lists every address of one family in the interface index, each with the id
  of its interface, in the order in which the loops of \<open>route\<close> visit them. \<open>searched\<close> is
  the part that the branch taken for an entry looks at: every interface when the entry
  sets no output interface, otherwise the entry's output interface alone.
\<close>

definition assigned :: "bool \<Rightarrow> (64 word \<times> ipAddrs) list \<Rightarrow> (64 word \<times> IPNet) list" where
  "assigned ipv6 as =
     concat (map (\<lambda>(i, ifaceAddrs). map (Pair i) (familyAddrs ipv6 ifaceAddrs)) as)"

definition searched :: "router \<Rightarrow> rtInfo \<Rightarrow> bool \<Rightarrow> (64 word \<times> IPNet) list" where
  "searched r m ipv6 =
     (if OutputIface m = 0 then assigned ipv6 (addrs r)
      else case map_of (addrs r) (OutputIface m) of
             None \<Rightarrow> []
           | Some ifaceAddrs \<Rightarrow> map (Pair (OutputIface m)) (familyAddrs ipv6 ifaceAddrs))"

text \<open>One step of a search loop: a visited address that satisfies \<open>P\<close> replaces the state.\<close>

definition hit :: "(64 word \<times> IPNet \<Rightarrow> bool) \<Rightarrow> 64 word \<times> IP \<Rightarrow> 64 word \<times> IPNet \<Rightarrow> 64 word \<times> IP" where
  "hit P st x = (if P x then (fst x, IP (snd x)) else st)"

section \<open>The order of the table\<close>

text \<open>
  The three keys of the comparison as one value, ordered lexicographically: the number of
  mask bits of the destination, negated so that longer prefixes come first, then the
  priority, then the metric. \<open>sameKeys e x\<close> says that \<open>x\<close> ties with \<open>e\<close> on all three.
\<close>

definition sortKey :: "rtInfo \<Rightarrow> int \<times> int \<times> int" where
  "sortKey e = (- int (countMaskOnes (Mask (Dst e))), sint (Priority e), sint (Metrics e))"

definition sameKeys :: "rtInfo \<Rightarrow> rtInfo \<Rightarrow> bool" where
  "sameKeys e x =
     (countMaskOnes (Mask (Dst x)) = countMaskOnes (Mask (Dst e))
      \<and> Priority x = Priority e \<and> Metrics x = Metrics e)"

text \<open>
  The ordering invariant in the words of the specification. The prefix length of a
  destination is the number of leading one bits of its mask (\<open>maskBits\<close> lists the bits of
  the mask, the highest bit of each byte first). In a table that satisfies the invariant
  the prefix lengths do not increase along the table, and of two entries with the same
  prefix length the earlier one has the pair (priority, metric) that is not greater in the
  lexicographic order: its priority is smaller, or the priorities are equal and its metric
  is not greater.
\<close>

definition maskBits :: "IPMask \<Rightarrow> bool list" where
  "maskBits m = concat (map (\<lambda>b. map (bit b) [7, 6, 5, 4, 3, 2, 1, 0 :: nat]) (elems m))"

definition prefixLength :: "rtInfo \<Rightarrow> nat" where
  "prefixLength e = length (takeWhile (\<lambda>b. b) (maskBits (Mask (Dst e))))"

definition orderingInvariant :: "rtInfo list \<Rightarrow> bool" where
  "orderingInvariant rs =
     sorted_wrt (\<lambda>x y. prefixLength y \<le> prefixLength x
        \<and> (prefixLength x = prefixLength y
             \<longrightarrow> sint (Priority x) < sint (Priority y)
                 \<or> (sint (Priority x) = sint (Priority y)
                     \<and> sint (Metrics x) \<le> sint (Metrics y))))
       rs"

section \<open>Ranges of a list, sorted ranges and heaps\<close>

text \<open>
  The notions in which the functions of package sort are specified. \<open>segment a b xs\<close> is
  \<open>xs[a:b]\<close>. \<open>rperm a b xs ys\<close> says that \<open>ys\<close> is a permutation of \<open>xs\<close> that differs from
  it only within \<open>[a, b)\<close>. \<open>rsorted k xs a b\<close> says that the keys \<open>k\<close> of \<open>xs[a:b]\<close> do not
  decrease. \<open>keyed lt k\<close> says that the comparison \<open>lt\<close> is the strict order of the key \<open>k\<close>.
\<close>

definition segment :: "nat \<Rightarrow> nat \<Rightarrow> 'a list \<Rightarrow> 'a list" where
  "segment a b xs = take (b - a) (drop a xs)"

definition rperm :: "nat \<Rightarrow> nat \<Rightarrow> 'a list \<Rightarrow> 'a list \<Rightarrow> bool" where
  "rperm a b xs ys =
     (length ys = length xs \<and> mset ys = mset xs
      \<and> (\<forall>i < length xs. i < a \<or> b \<le> i \<longrightarrow> ys ! i = xs ! i))"

definition rsorted :: "('a \<Rightarrow> 'k::linorder) \<Rightarrow> 'a list \<Rightarrow> nat \<Rightarrow> nat \<Rightarrow> bool" where
  "rsorted k xs a b = (\<forall>i j. a \<le> i \<and> i \<le> j \<and> j < b \<longrightarrow> k (xs ! i) \<le> k (xs ! j))"

definition keyed :: "('a \<Rightarrow> 'a \<Rightarrow> bool) \<Rightarrow> ('a \<Rightarrow> 'k::linorder) \<Rightarrow> bool" where
  "keyed lt k = (\<forall>x y. lt x y = (k x < k y))"

text \<open>
  The state of the inner loop while \<open>data[j]\<close> moves down within \<open>[a, J]\<close>: the parts below
  and above \<open>j\<close> are sorted, the lower part is below the upper part, and \<open>data[j]\<close> is
  smaller than everything above it.
\<close>

definition moving :: "('a \<Rightarrow> 'k::linorder) \<Rightarrow> 'a list \<Rightarrow> nat \<Rightarrow> nat \<Rightarrow> nat \<Rightarrow> bool" where
  "moving k xs a j J =
     (rsorted k xs a j \<and> rsorted k xs (j + 1) (J + 1)
      \<and> (\<forall>i l. a \<le> i \<and> i < j \<and> j < l \<and> l \<le> J \<longrightarrow> k (xs ! i) \<le> k (xs ! l))
      \<and> (\<forall>l. j < l \<and> l \<le> J \<longrightarrow> k (xs ! j) < k (xs ! l)))"

text \<open>Nothing in the range is smaller than the element just below the range.\<close>

definition lowerBound :: "('a \<Rightarrow> 'k::linorder) \<Rightarrow> 'a list \<Rightarrow> nat \<Rightarrow> nat \<Rightarrow> bool" where
  "lowerBound k xs a b = (a = 0 \<or> (\<forall>n. a \<le> n \<and> n < b \<longrightarrow> k (xs ! (a - 1)) \<le> k (xs ! n)))"

text \<open>
  The heap lives in \<open>data[first : first + hi]\<close>; node \<open>i\<close> is at \<open>first + i\<close> and its children
  are the nodes \<open>2 i + 1\<close> and \<open>2 i + 2\<close>. \<open>larger\<close> is the child that \<open>siftDown\<close> compares
  the root with.
\<close>

definition heapAt :: "('a \<Rightarrow> 'k::linorder) \<Rightarrow> 'a list \<Rightarrow> nat \<Rightarrow> nat \<Rightarrow> nat \<Rightarrow> bool" where
  "heapAt k xs first hi i =
     (\<forall>c. (c = 2 * i + 1 \<or> c = 2 * i + 2) \<and> c < hi \<longrightarrow> k (xs ! (first + c)) \<le> k (xs ! (first + i)))"

definition heapFrom :: "('a \<Rightarrow> 'k::linorder) \<Rightarrow> 'a list \<Rightarrow> nat \<Rightarrow> nat \<Rightarrow> nat \<Rightarrow> bool" where
  "heapFrom k xs first lo hi = (\<forall>i. lo \<le> i \<and> i < hi \<longrightarrow> heapAt k xs first hi i)"

definition almostHeap ::
    "('a \<Rightarrow> 'k::linorder) \<Rightarrow> 'a list \<Rightarrow> nat \<Rightarrow> nat \<Rightarrow> nat \<Rightarrow> nat \<Rightarrow> bool" where
  "almostHeap k xs first lo hi r =
     ((\<forall>i. lo \<le> i \<and> i < hi \<and> i \<noteq> r \<longrightarrow> heapAt k xs first hi i)
      \<and> (\<forall>p c. lo \<le> p \<and> (r = 2 * p + 1 \<or> r = 2 * p + 2) \<and> (c = 2 * r + 1 \<or> c = 2 * r + 2) \<and> c < hi
            \<longrightarrow> k (xs ! (first + c)) \<le> k (xs ! (first + p))))"

definition larger :: "('a \<Rightarrow> 'a \<Rightarrow> bool) \<Rightarrow> 'a list \<Rightarrow> nat \<Rightarrow> nat \<Rightarrow> nat \<Rightarrow> nat" where
  "larger lt xs r hi first =
     (if 2 * r + 1 + 1 < hi \<and> lt (xs ! (first + (2 * r + 1))) (xs ! (first + (2 * r + 1) + 1))
      then 2 * r + 1 + 1 else 2 * r + 1)"


section \<open>Addresses and containment\<close>

lemma matchLoop_find: "matchLoop input src dst rs = find (loopTest input src dst) rs"
  by (induction rs) (auto simp: loopTest_def)

lemma To4_len: "To4 ip \<noteq> None \<Longrightarrow> len (To4 ip) = 4"
  by (auto simp: To4_def len_def IPv4len_def IPv6len_def elems_def split: if_splits option.splits)

lemma To16_len: "To16 ip \<noteq> None \<Longrightarrow> len ip = 4 \<or> len ip = 16"
  by (auto simp: To16_def len_def IPv4len_def IPv6len_def split: if_splits)

lemma nnm_zero: "networkNumberAndMask zeroIPNet = (None, None)"
  by (simp add: networkNumberAndMask_def zeroIPNet_def To4_def len_def IPv4len_def IPv6len_def)

lemma Contains_zero:
  "Contains zeroIPNet ip = (len (if To4 ip \<noteq> None then To4 ip else ip) = 0)"
  by (simp add: Contains_def nnm_zero len_def elems_def split: option.splits)

lemma Contains_zero_valid:
  assumes "To4 dst \<noteq> None \<or> To16 dst \<noteq> None"
  shows "\<not> Contains zeroIPNet dst"
proof (cases "To4 dst = None")
  case True
  with assms have "len dst = 4 \<or> len dst = 16" using To16_len by blast
  with True show ?thesis by (auto simp: Contains_zero)
next
  case False
  then show ?thesis using To4_len [of dst] by (simp add: Contains_zero)
qed

lemma Contains_zero_nil: "Contains zeroIPNet None"
  by (simp add: Contains_zero To4_def len_def IPv4len_def IPv6len_def)

lemma matchLoop_Some_pred:
  "matchLoop input src dst rs = Some rt \<Longrightarrow> rt \<in> set rs \<and> loopTest input src dst rt"
  by (induction rs) (auto simp: loopTest_def split: if_splits)

lemma attrLoop_Dst:
  "\<forall>a \<in> set attrs. AttrType a \<noteq> RTA_DST \<Longrightarrow> Dst (attrLoop rt attrs ri) = Dst ri"
  by (induction attrs arbitrary: ri) auto

lemma To4_idem:
  assumes "To4 ip = Some bs"
  shows "To4 (Some bs) = Some bs"
proof -
  have "len (To4 ip) = 4" using assms by (intro To4_len) simp
  then have "length bs = 4" using assms by (simp add: len_def)
  then show ?thesis by (simp add: To4_def len_def IPv4len_def)
qed

lemma Contains_To4: "To4 ip = Some bs \<Longrightarrow> Contains n ip = Contains n (Some bs)"
  using To4_idem [of ip bs] by (simp add: Contains_def)

section \<open>Entries without a destination\<close>

text \<open>
  C10. A route entry whose destination prefix is the zero value (nil address, nil mask)
  fails the containment test for every destination that \<open>RouteWithSrc\<close> accepts as IPv4 or
  IPv6, so the matching loop never selects it. In particular the entry that the Linux
  ingestion builds from a route without an \<open>RTA_DST\<close> attribute (a default route) has the
  zero destination and is never the matched entry.
\<close>

theorem zero_Dst_never_matches:
  assumes "To4 dst \<noteq> None \<or> To16 dst \<noteq> None"
  shows "\<not> Contains zeroIPNet dst
    \<and> (Dst e = zeroIPNet \<longrightarrow> matchLoop input src dst rs \<noteq> Some e)
    \<and> ((\<forall>a \<in> set attrs. AttrType a \<noteq> RTA_DST) \<longrightarrow>
          Dst (linuxRouteInfo rt attrs) = zeroIPNet
          \<and> matchLoop input src dst rs \<noteq> Some (linuxRouteInfo rt attrs))"
proof -
  have c: "\<not> Contains zeroIPNet dst" using assms by (rule Contains_zero_valid)
  have m: "matchLoop input src dst rs \<noteq> Some x" if "Dst x = zeroIPNet" for x
    using matchLoop_Some_pred [of input src dst rs x] c that by (auto simp: loopTest_def)
  have d: "Dst (linuxRouteInfo rt attrs) = zeroIPNet" if "\<forall>a \<in> set attrs. AttrType a \<noteq> RTA_DST"
    using attrLoop_Dst [OF that] by (simp add: linuxRouteInfo_def zero_rtInfo_def)
  from c m d show ?thesis by blast
qed


theorem zero_Dst_never_matches_witness:
  "To4 (Some [10, 1, 2, 3]) = Some [10, 1, 2, 3]
   \<and> \<not> Contains zeroIPNet (Some [10, 1, 2, 3])
   \<and> matchLoop 0 None (Some [10, 1, 2, 3])
        [linuxRouteInfo \<lparr>Family = 2, DstLen = 0, SrcLen = 0, TOS = 0, Table = 254, Protocol = 3,
           Scope = 0, Type = 1, RtFlags = 0\<rparr>
           [\<lparr>AttrType = RTA_GATEWAY, Value = [192, 168, 1, 1]\<rparr>,
            \<lparr>AttrType = RTA_OIF, Value = [2, 0, 0, 0]\<rparr>]] = None"
proof -
  let ?dst = "Some [10, 1, 2, 3] :: IP"
  let ?rt = "\<lparr>Family = 2, DstLen = 0, SrcLen = 0, TOS = 0, Table = 254, Protocol = 3,
           Scope = 0, Type = 1, RtFlags = 0\<rparr>"
  let ?attrs = "[\<lparr>AttrType = RTA_GATEWAY, Value = [192, 168, 1, 1]\<rparr>,
            \<lparr>AttrType = RTA_OIF, Value = [2, 0, 0, 0]\<rparr>]"
  have v: "To4 ?dst \<noteq> None \<or> To16 ?dst \<noteq> None" by code_simp
  have a: "\<forall>a \<in> set ?attrs. AttrType a \<noteq> RTA_DST" by code_simp
  have m: "matchLoop 0 None ?dst [linuxRouteInfo ?rt ?attrs] = None" by code_simp
  have t: "To4 ?dst = ?dst" by code_simp
  from zero_Dst_never_matches [OF v, of "linuxRouteInfo ?rt ?attrs" 0 None "[linuxRouteInfo ?rt ?attrs]" ?attrs ?rt] a t m
  show ?thesis by blast
qed

section \<open>Entries without a source and a caller that gives one\<close>

text \<open>
  C4, evaluated on the code. The entry for 10.0.0.0/8 has no source prefix (the zero
  value). Its source test holds for the nil source, and the entry matches 10.1.2.3 then;
  with the source 10.0.0.1 the test fails, the entry is skipped and \<open>route\<close> ends with
  "no route found".
\<close>

theorem absent_Src_skips_present_source:
  "Src (zero_rtInfo\<lparr>Dst := \<lparr>IP = Some [10, 0, 0, 0], Mask = CIDRMask 8 32\<rparr>\<rparr>) = zeroIPNet
   \<and> \<not> Contains zeroIPNet (Some [10, 0, 0, 1])
   \<and> Contains zeroIPNet None
   \<and> matchLoop 0 None (Some [10, 1, 2, 3])
        [zero_rtInfo\<lparr>Dst := \<lparr>IP = Some [10, 0, 0, 0], Mask = CIDRMask 8 32\<rparr>\<rparr>]
      = Some (zero_rtInfo\<lparr>Dst := \<lparr>IP = Some [10, 0, 0, 0], Mask = CIDRMask 8 32\<rparr>\<rparr>)
   \<and> matchLoop 0 (Some [10, 0, 0, 1]) (Some [10, 1, 2, 3])
        [zero_rtInfo\<lparr>Dst := \<lparr>IP = Some [10, 0, 0, 0], Mask = CIDRMask 8 32\<rparr>\<rparr>] = None
   \<and> route \<lparr>ifaces = [], addrs = [],
         v4 = [zero_rtInfo\<lparr>Dst := \<lparr>IP = Some [10, 0, 0, 0], Mask = CIDRMask 8 32\<rparr>\<rparr>], v6 = []\<rparr>
        0 (Some [10, 0, 0, 1]) (Some [10, 1, 2, 3]) False
      = (0, None, None, Some (NoRouteFound (Some [10, 1, 2, 3])))"
  by code_simp


section \<open>The matching loop\<close>

text \<open>
  The loop of \<open>route\<close> returns the first entry of the family's table that passes
  \<open>loopTest\<close>. The specification's predicate and \<open>loopTest\<close> agree on every entry that has
  a source prefix, and on every entry for the nil source; they differ on an entry without
  a source prefix when the caller gives a source.
\<close>

lemma lookupPredicate_loopTest:
  "lookupPredicate input src dst e
     = (loopTest input src dst e
        \<or> (Src e = zeroIPNet \<and> Contains (Dst e) dst
             \<and> (InputIface e = 0 \<or> input = 0 \<or> InputIface e = input)))"
  by (auto simp: lookupPredicate_def loopTest_def)

lemma matchLoop_first_match:
  assumes "Contains zeroIPNet src \<or> (\<forall>e \<in> set rs. Src e \<noteq> zeroIPNet)"
  shows "matchLoop input src dst rs = find (lookupPredicate input src dst) rs"
proof -
  have "loopTest input src dst e = lookupPredicate input src dst e" if "e \<in> set rs" for e
    using assms that by (auto simp: lookupPredicate_def loopTest_def)
  then have "find (loopTest input src dst) rs = find (lookupPredicate input src dst) rs"
    by (induction rs) auto
  then show ?thesis by (simp add: matchLoop_find)
qed

text \<open>
  C1, evaluated on the code. The claim is that for every source hint resolution returns
  the first entry of the family's table that satisfies the lookup predicate, and fails
  with "no route found" only when no entry satisfies it. This is the case that fails: the
  table holds an entry for 10.1.0.0/16 without a source prefix, followed by an entry for
  10.0.0.0/8 with the source prefix 10.0.0.0/8, and the caller resolves 10.1.2.3 with the
  source 10.0.0.1. Both entries satisfy the lookup predicate, so the first one that does
  is the entry for 10.1.0.0/16; the loop of \<open>route\<close> returns the entry for 10.0.0.0/8. With
  the entry for 10.1.0.0/16 alone in the table that entry satisfies the predicate, and
  \<open>RouteWithSrc\<close> fails with "no route found". The cause is the source test of the loop,
  \<open>rt.Src.Contains(src)\<close>, on an entry without a source prefix.
\<close>

theorem first_match_misses_entry_without_Src:
  "find (lookupPredicate 0 (Some [10, 0, 0, 1]) (Some [10, 1, 2, 3]))
      [zero_rtInfo\<lparr>Dst := \<lparr>IP = Some [10, 1, 0, 0], Mask = CIDRMask 16 32\<rparr>\<rparr>,
       zero_rtInfo\<lparr>Dst := \<lparr>IP = Some [10, 0, 0, 0], Mask = CIDRMask 8 32\<rparr>,
                   Src := \<lparr>IP = Some [10, 0, 0, 0], Mask = CIDRMask 8 32\<rparr>\<rparr>]
    = Some (zero_rtInfo\<lparr>Dst := \<lparr>IP = Some [10, 1, 0, 0], Mask = CIDRMask 16 32\<rparr>\<rparr>)
   \<and> matchLoop 0 (Some [10, 0, 0, 1]) (Some [10, 1, 2, 3])
      [zero_rtInfo\<lparr>Dst := \<lparr>IP = Some [10, 1, 0, 0], Mask = CIDRMask 16 32\<rparr>\<rparr>,
       zero_rtInfo\<lparr>Dst := \<lparr>IP = Some [10, 0, 0, 0], Mask = CIDRMask 8 32\<rparr>,
                   Src := \<lparr>IP = Some [10, 0, 0, 0], Mask = CIDRMask 8 32\<rparr>\<rparr>]
    = Some (zero_rtInfo\<lparr>Dst := \<lparr>IP = Some [10, 0, 0, 0], Mask = CIDRMask 8 32\<rparr>,
                       Src := \<lparr>IP = Some [10, 0, 0, 0], Mask = CIDRMask 8 32\<rparr>\<rparr>)
   \<and> lookupPredicate 0 (Some [10, 0, 0, 1]) (Some [10, 1, 2, 3])
        (zero_rtInfo\<lparr>Dst := \<lparr>IP = Some [10, 1, 0, 0], Mask = CIDRMask 16 32\<rparr>\<rparr>)
   \<and> RouteWithSrc \<lparr>ifaces = [], addrs = [],
         v4 = [zero_rtInfo\<lparr>Dst := \<lparr>IP = Some [10, 1, 0, 0], Mask = CIDRMask 16 32\<rparr>\<rparr>],
         v6 = []\<rparr>
        None (Some [10, 0, 0, 1]) (Some [10, 1, 2, 3])
      = (None, None, None, Some (NoRouteFound (Some [10, 1, 2, 3])))"
  by code_simp

section \<open>An entry with an output interface\<close>

text \<open>
  C6 as the claim states it fails: the entry below sets output interface 2, interface 2 is
  in the index and has no address at all, and \<open>route\<close> ends with "no src found", not with
  "no output interface found".
\<close>

theorem pinned_interface_without_address_counterexample:
  "route \<lparr>ifaces = [], addrs = [(2, \<lparr>addrs_v4 = [], addrs_v6 = []\<rparr>)],
          v4 = [zero_rtInfo\<lparr>Dst := \<lparr>IP = Some [10, 0, 0, 0], Mask = CIDRMask 8 32\<rparr>,
                             OutputIface := 2\<rparr>], v6 = []\<rparr>
        0 None (Some [10, 1, 2, 3]) False
     = (2, Some [10, 1, 2, 3], None, Some (NoSrcFound (Some [10, 1, 2, 3])))"
  by code_simp

lemma eqPinned_None:
  "\<forall>each \<in> set as. \<not> Contains each gw \<Longrightarrow> eqPinned gw ps as p = p"
  by (induction as arbitrary: p) auto

lemma anyPinned_None:
  "\<forall>each \<in> set as. \<not> Contains each gw \<Longrightarrow> anyPinned gw as p = p"
  by (induction as arbitrary: p) auto

text \<open>
  C6, amended. When the matched entry sets an output interface that has no entry in the
  address index, \<open>route\<close> fails with "no output interface found"; when the interface is in
  the index and none of its addresses of the destination's family contains the gateway,
  \<open>route\<close> fails with "no src found".
\<close>

theorem pinned_interface_errors:
  assumes "matchLoop input src dst (if ipv6 then v6 r else v4 r) = Some m"
    and "OutputIface m \<noteq> 0"
  shows "(map_of (addrs r) (OutputIface m) = None \<longrightarrow>
            route r input src dst ipv6
              = (OutputIface m, gatewayOf m dst, None, Some (NoOutputIfaceFound dst)))
    \<and> (\<forall>ifaceAddrs. map_of (addrs r) (OutputIface m) = Some ifaceAddrs
            \<and> (\<forall>each \<in> set (familyAddrs ipv6 ifaceAddrs). \<not> Contains each (gatewayOf m dst))
          \<longrightarrow> route r input src dst ipv6
              = (OutputIface m, gatewayOf m dst, None, Some (NoSrcFound dst)))"
proof (intro conjI impI allI)
  assume "map_of (addrs r) (OutputIface m) = None"
  with assms show "route r input src dst ipv6
      = (OutputIface m, gatewayOf m dst, None, Some (NoOutputIfaceFound dst))"
    by (simp add: route_def routeMatched_def Let_def)
next
  fix ifaceAddrs
  assume h: "map_of (addrs r) (OutputIface m) = Some ifaceAddrs
      \<and> (\<forall>each \<in> set (familyAddrs ipv6 ifaceAddrs). \<not> Contains each (gatewayOf m dst))"
  then have e: "eqPinned (gatewayOf m dst) (PrefSrc m) (familyAddrs ipv6 ifaceAddrs) None = None"
    and a: "anyPinned (gatewayOf m dst) (familyAddrs ipv6 ifaceAddrs) None = None"
    by (simp_all add: eqPinned_None anyPinned_None)
  from assms h show "route r input src dst ipv6
      = (OutputIface m, gatewayOf m dst, None, Some (NoSrcFound dst))"
    by (simp add: route_def routeMatched_def Let_def e a)
qed

theorem pinned_interface_errors_witness:
  "route \<lparr>ifaces = [], addrs = [(2, \<lparr>addrs_v4 = [\<lparr>IP = Some [172, 16, 0, 9], Mask = CIDRMask 16 32\<rparr>],
                                    addrs_v6 = []\<rparr>)],
          v4 = [zero_rtInfo\<lparr>Dst := \<lparr>IP = Some [10, 0, 0, 0], Mask = CIDRMask 8 32\<rparr>,
                             OutputIface := 2\<rparr>], v6 = []\<rparr>
        0 None (Some [10, 1, 2, 3]) False
     = (2, Some [10, 1, 2, 3], None, Some (NoSrcFound (Some [10, 1, 2, 3])))
   \<and> route \<lparr>ifaces = [], addrs = [(2, \<lparr>addrs_v4 = [\<lparr>IP = Some [172, 16, 0, 9], Mask = CIDRMask 16 32\<rparr>],
                                    addrs_v6 = []\<rparr>)],
          v4 = [zero_rtInfo\<lparr>Dst := \<lparr>IP = Some [10, 0, 0, 0], Mask = CIDRMask 8 32\<rparr>,
                             OutputIface := 7\<rparr>], v6 = []\<rparr>
        0 None (Some [10, 1, 2, 3]) False
     = (7, Some [10, 1, 2, 3], None, Some (NoOutputIfaceFound (Some [10, 1, 2, 3])))"
proof -
  let ?dst = "Some [10, 1, 2, 3] :: IP"
  let ?as = "\<lparr>addrs_v4 = [\<lparr>IP = Some [172, 16, 0, 9], Mask = CIDRMask 16 32\<rparr>], addrs_v6 = []\<rparr>"
  let ?m2 = "zero_rtInfo\<lparr>Dst := \<lparr>IP = Some [10, 0, 0, 0], Mask = CIDRMask 8 32\<rparr>, OutputIface := 2\<rparr>"
  let ?m7 = "zero_rtInfo\<lparr>Dst := \<lparr>IP = Some [10, 0, 0, 0], Mask = CIDRMask 8 32\<rparr>, OutputIface := 7\<rparr>"
  let ?r2 = "\<lparr>ifaces = [], addrs = [(2, ?as)], v4 = [?m2], v6 = []\<rparr>"
  let ?r7 = "\<lparr>ifaces = [], addrs = [(2, ?as)], v4 = [?m7], v6 = []\<rparr>"
  have m2: "matchLoop 0 None ?dst (if False then v6 ?r2 else v4 ?r2) = Some ?m2" by code_simp
  have m7: "matchLoop 0 None ?dst (if False then v6 ?r7 else v4 ?r7) = Some ?m7" by code_simp
  have o2: "OutputIface ?m2 \<noteq> 0" by code_simp
  have o7: "OutputIface ?m7 \<noteq> 0" by code_simp
  have g2: "gatewayOf ?m2 ?dst = ?dst" by code_simp
  have g7: "gatewayOf ?m7 ?dst = ?dst" by code_simp
  have l2: "map_of (addrs ?r2) (OutputIface ?m2) = Some ?as
      \<and> (\<forall>each \<in> set (familyAddrs False ?as). \<not> Contains each (gatewayOf ?m2 ?dst))"
    by code_simp
  have l7: "map_of (addrs ?r7) (OutputIface ?m7) = None" by code_simp
  have o2': "OutputIface ?m2 = 2" by code_simp
  have o7': "OutputIface ?m7 = 7" by code_simp
  from pinned_interface_errors [OF m2 o2] l2
  have 1: "route ?r2 0 None ?dst False = (OutputIface ?m2, gatewayOf ?m2 ?dst, None, Some (NoSrcFound ?dst))"
    by blast
  from pinned_interface_errors [OF m7 o7] l7
  have 2: "route ?r7 0 None ?dst False = (OutputIface ?m7, gatewayOf ?m7 ?dst, None, Some (NoOutputIfaceFound ?dst))"
    by blast
  from 1 2 show ?thesis unfolding g2 g7 o2' o7' by (rule conjI)
qed

section \<open>The search for the preferred source\<close>

lemma foldl_hit_none: "\<forall>x \<in> set xs. \<not> P x \<Longrightarrow> foldl (hit P) st xs = st"
  by (induction xs arbitrary: st) (auto simp: hit_def)

lemma foldl_hit_some:
  "\<exists>x \<in> set xs. P x \<Longrightarrow> \<exists>x \<in> set xs. P x \<and> foldl (hit P) st xs = (fst x, IP (snd x))"
proof (induction xs arbitrary: st rule: rev_induct)
  case Nil
  then show ?case by simp
next
  case (snoc y ys)
  show ?case
  proof (cases "P y")
    case True
    then show ?thesis by (auto simp: hit_def)
  next
    case False
    with snoc.prems have "\<exists>x \<in> set ys. P x" by auto
    from snoc.IH [OF this, of st] False show ?thesis by (auto simp: hit_def)
  qed
qed

lemma anyInner_foldl:
  "anyInner gw i as st = foldl (hit (\<lambda>x. Contains (snd x) gw)) st (map (Pair i) as)"
  by (induction as arbitrary: st) (auto simp: hit_def)

lemma anyOuter_foldl:
  "anyOuter gw ipv6 as st = foldl (hit (\<lambda>x. Contains (snd x) gw)) st (assigned ipv6 as)"
proof (induction as arbitrary: st)
  case Nil
  show ?case by (simp add: assigned_def)
next
  case (Cons x as)
  show ?case using Cons.IH by (cases x) (simp add: assigned_def anyInner_foldl)
qed

lemma eqInner_foldl:
  "eqInner gw ps i as st
     = foldl (hit (\<lambda>x. Contains (snd x) gw \<and> Equal (IP (snd x)) ps)) st (map (Pair i) as)"
  by (induction as arbitrary: st) (auto simp: hit_def)

lemma eqOuter_foldl:
  "eqOuter gw ps ipv6 as st
     = foldl (hit (\<lambda>x. Contains (snd x) gw \<and> Equal (IP (snd x)) ps)) st (assigned ipv6 as)"
proof (induction as arbitrary: st)
  case Nil
  show ?case by (simp add: assigned_def)
next
  case (Cons x as)
  show ?case using Cons.IH by (cases x) (simp add: assigned_def eqInner_foldl)
qed

lemma anyPinned_foldl:
  "(i, anyPinned gw as p) = foldl (hit (\<lambda>x. Contains (snd x) gw)) (i, p) (map (Pair i) as)"
  by (induction as arbitrary: p) (auto simp: hit_def)

lemma eqPinned_foldl:
  "(i, eqPinned gw ps as p)
     = foldl (hit (\<lambda>x. Contains (snd x) gw \<and> Equal (IP (snd x)) ps)) (i, p) (map (Pair i) as)"
  by (induction as arbitrary: p) (auto simp: hit_def)

text \<open>What lines 153 to 213 leave in \<open>(iface, preferredSrc)\<close>, as two folds over the
  addresses that the entry's branch searches.\<close>

lemma routeMatched_searched:
  fixes r :: router and m :: rtInfo and dst :: IP and ipv6 :: bool
  assumes "OutputIface m = 0 \<or> map_of (addrs r) (OutputIface m) \<noteq> None"
  defines "gw \<equiv> gatewayOf m dst"
  defines "st0 \<equiv> (OutputIface m, None :: IP)"
  defines "st1 \<equiv> (if PrefSrc m \<noteq> None
      then foldl (hit (\<lambda>x. Contains (snd x) gw \<and> Equal (IP (snd x)) (PrefSrc m))) st0 (searched r m ipv6)
      else st0)"
  defines "st2 \<equiv> (if snd st1 = None
      then foldl (hit (\<lambda>x. Contains (snd x) gw)) st1 (searched r m ipv6) else st1)"
  shows "routeMatched r m dst ipv6
     = (if snd st2 = None then (fst st2, gw, None, Some (NoSrcFound dst))
        else (fst st2, gw, snd st2, None))"
proof (cases "OutputIface m = 0")
  case True
  have s: "searched r m ipv6 = assigned ipv6 (addrs r)" using True by (simp add: searched_def)
  have z: "st0 = (0, None)" using True by (simp add: st0_def)
  have 1: "st1 = (if PrefSrc m \<noteq> None
      then eqOuter gw (PrefSrc m) ipv6 (addrs r) (0, None) else (0, None))"
    unfolding st1_def z s by (simp only: eqOuter_foldl)
  have 2: "st2 = (if snd st1 = None then anyOuter gw ipv6 (addrs r) st1 else st1)"
    unfolding st2_def s by (simp only: anyOuter_foldl)
  have "routeMatched r m dst ipv6
      = (if snd st2 = None then (fst st2, gw, None, Some (NoSrcFound dst))
         else (fst st2, gw, snd st2, None))"
    unfolding 2 1 using True by (simp only: routeMatched_def Let_def gw_def if_True simp_thms)
  then show ?thesis .
next
  case False
  with assms(1) obtain ifaceAddrs where l: "map_of (addrs r) (OutputIface m) = Some ifaceAddrs"
    by auto
  let ?as = "familyAddrs ipv6 ifaceAddrs"
  let ?i = "OutputIface m"
  have s: "searched r m ipv6 = map (Pair ?i) ?as" using False l by (simp add: searched_def)
  define p1 where "p1 = (if PrefSrc m \<noteq> None then eqPinned gw (PrefSrc m) ?as None else None)"
  define p2 where "p2 = (if p1 = None then anyPinned gw ?as p1 else p1)"
  have 1: "st1 = (?i, p1)"
    unfolding st1_def p1_def st0_def s by (simp add: eqPinned_foldl [symmetric])
  have 2: "st2 = (?i, p2)"
    unfolding st2_def p2_def 1 s by (simp add: anyPinned_foldl [symmetric])
  have "routeMatched r m dst ipv6
      = (if p2 = None then (?i, gw, None, Some (NoSrcFound dst)) else (?i, gw, p2, None))"
    using False l by (simp add: routeMatched_def Let_def p1_def p2_def gw_def)
  then show ?thesis by (simp add: 2)
qed

lemma Contains_IP_present:
  assumes "Contains each gw" and "To4 gw \<noteq> None \<or> To16 gw \<noteq> None"
  shows "IP each \<noteq> None"
proof
  assume n: "IP each = None"
  have nn: "networkNumberAndMask each = (None, None)"
    using n by (simp add: networkNumberAndMask_def To4_def len_def IPv4len_def IPv6len_def)
  have "len (if To4 gw \<noteq> None then To4 gw else gw) \<noteq> 0"
  proof (cases "To4 gw = None")
    case True
    with assms(2) have "len gw = 4 \<or> len gw = 16" using To16_len by blast
    with True show ?thesis by auto
  next
    case False
    then show ?thesis using To4_len [of gw] by simp
  qed
  with assms(1) nn show False by (simp add: Contains_def len_def)
qed

text \<open>
  C7. The matched entry has a preferred source that equals none of the addresses its
  branch searches, one of those addresses contains the derived gateway, and the gateway is
  an IPv4 or IPv6 address. Then \<open>route\<close> succeeds: it returns the gateway, an address
  among the searched ones that contains it as preferred source, and that address's
  interface.
\<close>

theorem source_fallback:
  assumes matched: "matchLoop input src dst (if ipv6 then v6 r else v4 r) = Some m"
    and pref: "PrefSrc m \<noteq> None"
    and noeq: "\<forall>(i, each) \<in> set (searched r m ipv6). \<not> Equal (IP each) (PrefSrc m)"
    and reach: "\<exists>(i, each) \<in> set (searched r m ipv6). Contains each (gatewayOf m dst)"
    and valid: "To4 (gatewayOf m dst) \<noteq> None \<or> To16 (gatewayOf m dst) \<noteq> None"
  shows "\<exists>(i, each) \<in> set (searched r m ipv6). Contains each (gatewayOf m dst)
      \<and> route r input src dst ipv6 = (i, gatewayOf m dst, IP each, None)"
proof -
  let ?gw = "gatewayOf m dst"
  let ?S = "searched r m ipv6"
  let ?st0 = "(OutputIface m, None :: IP)"
  have ne: "?S \<noteq> []" using reach by auto
  then have pre: "OutputIface m = 0 \<or> map_of (addrs r) (OutputIface m) \<noteq> None"
    by (auto simp: searched_def split: if_splits option.splits)
  have 1: "foldl (hit (\<lambda>x. Contains (snd x) ?gw \<and> Equal (IP (snd x)) (PrefSrc m))) ?st0 ?S = ?st0"
    using noeq by (intro foldl_hit_none) auto
  have "\<exists>x \<in> set ?S. Contains (snd x) ?gw" using reach by (simp add: case_prod_unfold)
  from foldl_hit_some [where P = "\<lambda>x. Contains (snd x) ?gw", OF this, of ?st0]
  obtain x where x: "x \<in> set ?S" "Contains (snd x) ?gw"
    "foldl (hit (\<lambda>x. Contains (snd x) ?gw)) ?st0 ?S = (fst x, IP (snd x))" by blast
  have present: "IP (snd x) \<noteq> None" using x(2) valid by (rule Contains_IP_present)
  have "routeMatched r m dst ipv6 = (fst x, ?gw, IP (snd x), None)"
    using routeMatched_searched [OF pre, of dst ipv6] pref present by (simp add: 1 x(3))
  then have "route r input src dst ipv6 = (fst x, ?gw, IP (snd x), None)"
    using matched by (simp add: route_def)
  with x(1,2) show ?thesis by (cases x) auto
qed


theorem source_fallback_witness:
  "route \<lparr>ifaces = [],
          addrs = [(1, \<lparr>addrs_v4 = [\<lparr>IP = Some [10, 0, 0, 5], Mask = CIDRMask 8 32\<rparr>], addrs_v6 = []\<rparr>)],
          v4 = [zero_rtInfo\<lparr>Dst := \<lparr>IP = Some [10, 0, 0, 0], Mask = CIDRMask 8 32\<rparr>,
                             PrefSrc := Some [10, 0, 0, 99]\<rparr>],
          v6 = []\<rparr> 0 None (Some [10, 1, 2, 3]) False
     = (1, Some [10, 1, 2, 3], Some [10, 0, 0, 5], None)"
proof -
  let ?A = "\<lparr>IP = Some [10, 0, 0, 5], Mask = CIDRMask 8 32\<rparr>"
  let ?m = "zero_rtInfo\<lparr>Dst := \<lparr>IP = Some [10, 0, 0, 0], Mask = CIDRMask 8 32\<rparr>,
                             PrefSrc := Some [10, 0, 0, 99]\<rparr>"
  let ?r = "\<lparr>ifaces = [], addrs = [(1, \<lparr>addrs_v4 = [?A], addrs_v6 = []\<rparr>)], v4 = [?m], v6 = []\<rparr>"
  let ?dst = "Some [10, 1, 2, 3] :: IP"
  have s: "searched ?r ?m False = [(1, ?A)]" by code_simp
  have g: "gatewayOf ?m ?dst = ?dst" by code_simp
  have 1: "matchLoop 0 None ?dst (if False then v6 ?r else v4 ?r) = Some ?m" by code_simp
  have 2: "PrefSrc ?m \<noteq> None" by code_simp
  have 3: "\<forall>(i, each) \<in> set (searched ?r ?m False). \<not> Equal (IP each) (PrefSrc ?m)"
    unfolding s by code_simp
  have 4: "\<exists>(i, each) \<in> set (searched ?r ?m False). Contains each (gatewayOf ?m ?dst)"
    unfolding s g by code_simp
  have 5: "To4 (gatewayOf ?m ?dst) \<noteq> None \<or> To16 (gatewayOf ?m ?dst) \<noteq> None"
    unfolding g by code_simp
  from source_fallback [OF 1 2 3 4 5] show ?thesis unfolding s g by simp
qed

section \<open>A directly connected destination\<close>

lemma nnm_v4:
  assumes "To4 (IP n) = Some bs" and "len (Mask n) = 4"
  shows "networkNumberAndMask n = (Some bs, Mask n)"
proof -
  have "len (To4 (IP n)) = 4" using assms(1) by (intro To4_len) simp
  then show ?thesis using assms
    by (simp add: networkNumberAndMask_def Let_def IPv4len_def IPv6len_def)
qed

lemma Contains_v4:
  assumes "To4 (IP n) = Some bs" and "Mask n = Some ms" and "length ms = 4"
    and "To4 ip = Some cs"
  shows "Contains n ip = maskedEqual bs ms cs"
proof -
  have 1: "len (To4 (IP n)) = 4" using assms(1) by (intro To4_len) simp
  have 2: "len (To4 ip) = 4" using assms(4) by (intro To4_len) simp
  have "networkNumberAndMask n = (Some bs, Some ms)"
    using nnm_v4 [OF assms(1)] assms(2,3) by (simp add: len_def)
  then show ?thesis using assms 1 2 by (simp add: Contains_def Let_def elems_def)
qed

lemma gatewayOf_direct:
  "Gateway e = None \<or> IsUnspecified (Gateway e) \<Longrightarrow> gatewayOf e dst = dst"
  by (auto simp: gatewayOf_def)

text \<open>
  C8. The matched entry is 192.168.1.0/24 with no gateway (nil or the unspecified address)
  and no output interface; interface \<open>i\<close> holds 192.168.1.10/24 and no other assigned
  address contains the destination. Then \<open>Route\<close> for 192.168.1.50 returns that interface,
  the destination itself as gateway and 192.168.1.10 as preferred source. Addresses may be
  in 4-byte or 16-byte form: \<open>To4\<close> gives the four bytes.
\<close>

theorem directly_connected:
  assumes dst: "To4 dst = Some [192, 168, 1, 50]"
    and matched: "matchLoop 0 None dst (v4 r) = Some e"
    and e: "To4 (IP (Dst e)) = Some [192, 168, 1, 0]" "Mask (Dst e) = CIDRMask 24 32"
    and direct: "Gateway e = None \<or> IsUnspecified (Gateway e)"
    and unpinned: "OutputIface e = 0"
    and A: "To4 (IP A) = Some [192, 168, 1, 10]" "Mask A = CIDRMask 24 32"
    and holds: "(i, A) \<in> set (assigned False (addrs r))"
    and only: "\<forall>(k, each) \<in> set (assigned False (addrs r)). Contains each dst \<longrightarrow> k = i \<and> each = A"
    and iface: "map_of (ifaces r) i = Some iface"
  shows "Route r dst = (Some iface, dst, IP A, None)"
proof -
  let ?S = "assigned False (addrs r)"
  let ?eq = "\<lambda>x. Contains (snd x) dst \<and> Equal (IP (snd x)) (PrefSrc e)"
  let ?any = "\<lambda>x :: 64 word \<times> IPNet. Contains (snd x) dst"
  let ?st0 = "(OutputIface e, None :: IP)"
  have g: "gatewayOf e dst = dst" using direct by (rule gatewayOf_direct)
  have s: "searched r e False = ?S" using unpinned by (simp add: searched_def)
  have m: "CIDRMask 24 32 = Some [255, 255, 255, 0]" by code_simp
  have cA: "Contains A dst"
    using Contains_v4 [OF A(1) _ _ dst, of "[255, 255, 255, 0]"] A(2) m by simp
  have pA: "IP A \<noteq> None"
    using A(1) by (cases "IP A") (simp_all add: To4_def len_def IPv4len_def IPv6len_def)
  have uniq: "x = (i, A)" if "x \<in> set ?S" "Contains (snd x) dst" for x
    using only that by (cases x) auto
  have any: "foldl (hit ?any) st ?S = (i, IP A)" for st
  proof -
    have "\<exists>x \<in> set ?S. ?any x" using holds cA by force
    from foldl_hit_some [where P = ?any, OF this, of st] uniq show ?thesis by fastforce
  qed
  define st1 where "st1 = (if PrefSrc e \<noteq> None then foldl (hit ?eq) ?st0 ?S else ?st0)"
  define st2 where "st2 = (if snd st1 = None then foldl (hit ?any) st1 ?S else st1)"
  have "st1 = ?st0 \<or> st1 = (i, IP A)"
  proof (cases "\<exists>x \<in> set ?S. ?eq x")
    case True
    from foldl_hit_some [where P = ?eq, OF True, of ?st0] uniq
    have "foldl (hit ?eq) ?st0 ?S = (i, IP A)" by fastforce
    then show ?thesis by (simp add: st1_def)
  next
    case False
    then have "foldl (hit ?eq) ?st0 ?S = ?st0" by (intro foldl_hit_none) simp
    then show ?thesis by (simp add: st1_def)
  qed
  then have 2: "st2 = (i, IP A)" using pA any by (auto simp: st2_def)
  have "routeMatched r e dst False = (i, dst, IP A, None)"
    using routeMatched_searched [of e r dst False] unpinned pA
    unfolding g s st1_def [symmetric] st2_def [symmetric] 2 by simp
  then have "route r 0 None dst False = (i, dst, IP A, None)"
    using matched by (simp add: route_def)
  then show ?thesis using dst iface by (simp add: Route_def RouteWithSrc_def)
qed

theorem directly_connected_witness:
  "Route \<lparr>ifaces = [(1, \<lparr>Index = 1, MTU = 65536, Name = ''lo'', HardwareAddr = None, Flags = 0\<rparr>),
                    (2, \<lparr>Index = 2, MTU = 1500, Name = ''eth0'',
                         HardwareAddr = Some [2, 0, 0, 0, 0, 1], Flags = 0\<rparr>)],
          addrs = [(1, \<lparr>addrs_v4 = [\<lparr>IP = IPv4 127 0 0 1, Mask = CIDRMask 8 32\<rparr>], addrs_v6 = []\<rparr>),
                   (2, \<lparr>addrs_v4 = [\<lparr>IP = IPv4 192 168 1 10, Mask = CIDRMask 24 32\<rparr>], addrs_v6 = []\<rparr>)],
          v4 = [zero_rtInfo\<lparr>Dst := \<lparr>IP = Some [192, 168, 1, 0], Mask = CIDRMask 24 32\<rparr>\<rparr>],
          v6 = []\<rparr> (Some [192, 168, 1, 50])
     = (Some \<lparr>Index = 2, MTU = 1500, Name = ''eth0'', HardwareAddr = Some [2, 0, 0, 0, 0, 1], Flags = 0\<rparr>,
        Some [192, 168, 1, 50], IPv4 192 168 1 10, None)"
proof -
  let ?lo = "\<lparr>Index = 1, MTU = 65536, Name = ''lo'', HardwareAddr = None, Flags = 0\<rparr>"
  let ?eth = "\<lparr>Index = 2, MTU = 1500, Name = ''eth0'', HardwareAddr = Some [2, 0, 0, 0, 0, 1], Flags = 0\<rparr>"
  let ?L = "\<lparr>IP = IPv4 127 0 0 1, Mask = CIDRMask 8 32\<rparr>"
  let ?A = "\<lparr>IP = IPv4 192 168 1 10, Mask = CIDRMask 24 32\<rparr>"
  let ?e = "zero_rtInfo\<lparr>Dst := \<lparr>IP = Some [192, 168, 1, 0], Mask = CIDRMask 24 32\<rparr>\<rparr>"
  let ?r = "\<lparr>ifaces = [(1, ?lo), (2, ?eth)],
            addrs = [(1, \<lparr>addrs_v4 = [?L], addrs_v6 = []\<rparr>), (2, \<lparr>addrs_v4 = [?A], addrs_v6 = []\<rparr>)],
            v4 = [?e], v6 = []\<rparr>"
  let ?dst = "Some [192, 168, 1, 50] :: IP"
  have s: "assigned False (addrs ?r) = [(1, ?L), (2, ?A)]" by code_simp
  have 1: "To4 ?dst = Some [192, 168, 1, 50]" by code_simp
  have 2: "matchLoop 0 None ?dst (v4 ?r) = Some ?e" by code_simp
  have 3: "To4 (IP (Dst ?e)) = Some [192, 168, 1, 0]" by code_simp
  have 4: "Mask (Dst ?e) = CIDRMask 24 32" by code_simp
  have 5: "Gateway ?e = None \<or> IsUnspecified (Gateway ?e)" by code_simp
  have 6: "OutputIface ?e = 0" by code_simp
  have 7: "To4 (IP ?A) = Some [192, 168, 1, 10]" by code_simp
  have 8: "Mask ?A = CIDRMask 24 32" by simp
  have 9: "(2, ?A) \<in> set (assigned False (addrs ?r))" unfolding s by simp
  have nL: "\<not> Contains ?L ?dst" by code_simp
  have 10: "\<forall>(k, each) \<in> set (assigned False (addrs ?r)). Contains each ?dst \<longrightarrow> k = 2 \<and> each = ?A"
    unfolding s using nL by simp
  have 11: "map_of (ifaces ?r) 2 = Some ?eth" by simp
  have ip: "IP ?A = IPv4 192 168 1 10" by simp
  from directly_connected [OF 1 2 3 4 5 6 7 8 9 10 11] show ?thesis unfolding ip .
qed

section \<open>A hardware address that no interface has\<close>

text \<open>
  C5 as the claim states it fails: the only entry asks for input interface 1. With a nil
  hardware address the call succeeds; with 02:00:00:00:00:09, which no interface has, the
  input interface is -1, the entry is skipped and the call fails with "no route found".
\<close>

theorem unmatched_hardware_address_counterexample:
  "inputLoop (Some [2, 0, 0, 0, 0, 9])
      [(1, \<lparr>Index = 1, MTU = 1500, Name = ''eth0'', HardwareAddr = Some [2, 0, 0, 0, 0, 1], Flags = 0\<rparr>)]
     = - 1
   \<and> RouteWithSrc
      \<lparr>ifaces = [(1, \<lparr>Index = 1, MTU = 1500, Name = ''eth0'',
                       HardwareAddr = Some [2, 0, 0, 0, 0, 1], Flags = 0\<rparr>)],
       addrs = [(1, \<lparr>addrs_v4 = [\<lparr>IP = Some [10, 0, 0, 5], Mask = CIDRMask 8 32\<rparr>], addrs_v6 = []\<rparr>)],
       v4 = [zero_rtInfo\<lparr>Dst := \<lparr>IP = Some [10, 0, 0, 0], Mask = CIDRMask 8 32\<rparr>, InputIface := 1\<rparr>],
       v6 = []\<rparr> None None (Some [10, 1, 2, 3])
     = (Some \<lparr>Index = 1, MTU = 1500, Name = ''eth0'', HardwareAddr = Some [2, 0, 0, 0, 0, 1], Flags = 0\<rparr>,
        Some [10, 1, 2, 3], Some [10, 0, 0, 5], None)
   \<and> RouteWithSrc
      \<lparr>ifaces = [(1, \<lparr>Index = 1, MTU = 1500, Name = ''eth0'',
                       HardwareAddr = Some [2, 0, 0, 0, 0, 1], Flags = 0\<rparr>)],
       addrs = [(1, \<lparr>addrs_v4 = [\<lparr>IP = Some [10, 0, 0, 5], Mask = CIDRMask 8 32\<rparr>], addrs_v6 = []\<rparr>)],
       v4 = [zero_rtInfo\<lparr>Dst := \<lparr>IP = Some [10, 0, 0, 0], Mask = CIDRMask 8 32\<rparr>, InputIface := 1\<rparr>],
       v6 = []\<rparr> (Some [2, 0, 0, 0, 0, 9]) None (Some [10, 1, 2, 3])
     = (None, None, None, Some (NoRouteFound (Some [10, 1, 2, 3])))"
  by code_simp

lemma inputLoop_unmatched:
  "\<forall>(i, iface) \<in> set ifs. \<not> bytes_Equal input (HardwareAddr iface) \<Longrightarrow> inputLoop input ifs = - 1"
  by (induction ifs) auto

lemma matchLoop_unconstrained:
  "\<forall>rt \<in> set rs. InputIface rt = 0 \<or> InputIface rt = - 1
    \<Longrightarrow> matchLoop (- 1) src dst rs = matchLoop 0 src dst rs"
  by (induction rs) auto

text \<open>
  C5, amended. A non-nil hardware address that no interface has gives the input interface
  id -1. When every entry of the table has input interface 0 (none) or -1, \<open>RouteWithSrc\<close>
  returns what it returns for a nil hardware address.
\<close>

theorem unmatched_hardware_address:
  assumes "input \<noteq> None"
    and "\<forall>(i, iface) \<in> set (ifaces r). \<not> bytes_Equal input (HardwareAddr iface)"
  shows "inputLoop input (ifaces r) = - 1
    \<and> ((\<forall>rt \<in> set (v4 r) \<union> set (v6 r). InputIface rt = 0 \<or> InputIface rt = - 1)
         \<longrightarrow> RouteWithSrc r input src dst = RouteWithSrc r None src dst)"
proof (intro conjI impI)
  show i: "inputLoop input (ifaces r) = - 1" using assms(2) by (rule inputLoop_unmatched)
  assume u: "\<forall>rt \<in> set (v4 r) \<union> set (v6 r). InputIface rt = 0 \<or> InputIface rt = - 1"
  have "route r (- 1) src dst ipv6 = route r 0 src dst ipv6" for ipv6
    using u by (cases ipv6) (simp_all add: route_def matchLoop_unconstrained)
  then show "RouteWithSrc r input src dst = RouteWithSrc r None src dst"
    using assms(1) i by (simp add: RouteWithSrc_def)
qed

theorem unmatched_hardware_address_witness:
  "RouteWithSrc
      \<lparr>ifaces = [(1, \<lparr>Index = 1, MTU = 1500, Name = ''eth0'',
                       HardwareAddr = Some [2, 0, 0, 0, 0, 1], Flags = 0\<rparr>)],
       addrs = [(1, \<lparr>addrs_v4 = [\<lparr>IP = Some [10, 0, 0, 5], Mask = CIDRMask 8 32\<rparr>], addrs_v6 = []\<rparr>)],
       v4 = [zero_rtInfo\<lparr>Dst := \<lparr>IP = Some [10, 0, 0, 0], Mask = CIDRMask 8 32\<rparr>\<rparr>],
       v6 = []\<rparr> (Some [2, 0, 0, 0, 0, 9]) None (Some [10, 1, 2, 3])
     = (Some \<lparr>Index = 1, MTU = 1500, Name = ''eth0'', HardwareAddr = Some [2, 0, 0, 0, 0, 1], Flags = 0\<rparr>,
        Some [10, 1, 2, 3], Some [10, 0, 0, 5], None)"
proof -
  let ?eth = "\<lparr>Index = 1, MTU = 1500, Name = ''eth0'', HardwareAddr = Some [2, 0, 0, 0, 0, 1], Flags = 0\<rparr>"
  let ?r = "\<lparr>ifaces = [(1, ?eth)],
       addrs = [(1, \<lparr>addrs_v4 = [\<lparr>IP = Some [10, 0, 0, 5], Mask = CIDRMask 8 32\<rparr>], addrs_v6 = []\<rparr>)],
       v4 = [zero_rtInfo\<lparr>Dst := \<lparr>IP = Some [10, 0, 0, 0], Mask = CIDRMask 8 32\<rparr>\<rparr>],
       v6 = []\<rparr>"
  let ?hw = "Some [2, 0, 0, 0, 0, 9] :: HardwareAddr"
  let ?dst = "Some [10, 1, 2, 3] :: IP"
  have 1: "?hw \<noteq> None" by simp
  have 2: "\<forall>(i, iface) \<in> set (ifaces ?r). \<not> bytes_Equal ?hw (HardwareAddr iface)" by code_simp
  have 3: "\<forall>rt \<in> set (v4 ?r) \<union> set (v6 ?r). InputIface rt = 0 \<or> InputIface rt = - 1" by code_simp
  have 4: "RouteWithSrc ?r None None ?dst = (Some ?eth, ?dst, Some [10, 0, 0, 5], None)" by code_simp
  from unmatched_hardware_address [OF 1 2, of None ?dst] 3
  have "RouteWithSrc ?r ?hw None ?dst = RouteWithSrc ?r None None ?dst" by blast
  with 4 show ?thesis by (simp only:)
qed


section \<open>Ranges of a list\<close>

lemma length_segment: "b \<le> length xs \<Longrightarrow> length (segment a b xs) = b - a"
  by (simp add: segment_def)

lemma nth_segment: "b \<le> length xs \<Longrightarrow> i < b - a \<Longrightarrow> segment a b xs ! i = xs ! (a + i)"
  by (simp add: segment_def)

lemma split_segment:
  "a \<le> b \<Longrightarrow> b \<le> length xs \<Longrightarrow> xs = take a xs @ segment a b xs @ drop b xs"
proof -
  assume ab: "a \<le> b" and bl: "b \<le> length xs"
  have "drop a xs = take (b - a) (drop a xs) @ drop (b - a) (drop a xs)"
    by (rule append_take_drop_id [symmetric])
  also have "drop (b - a) (drop a xs) = drop b xs" using ab by (simp add: add.commute)
  finally have "drop a xs = segment a b xs @ drop b xs" by (simp add: segment_def)
  then have "take a xs @ drop a xs = take a xs @ segment a b xs @ drop b xs" by simp
  then show ?thesis by simp
qed

lemma set_segment:
  "b \<le> length xs \<Longrightarrow> set (segment a b xs) = {xs ! i | i. a \<le> i \<and> i < b}"
proof -
  assume bl: "b \<le> length xs"
  have "set (segment a b xs) = {segment a b xs ! i | i. i < b - a}"
    using length_segment [OF bl, of a] by (auto simp: set_conv_nth)
  also have "\<dots> = {xs ! (a + i) | i. i < b - a}"
  proof (rule Collect_cong)
    fix x
    show "(\<exists>i. x = segment a b xs ! i \<and> i < b - a) = (\<exists>i. x = xs ! (a + i) \<and> i < b - a)"
      using nth_segment [OF bl, of _ a] by metis
  qed
  also have "\<dots> = {xs ! i | i. a \<le> i \<and> i < b}"
  proof (intro set_eqI iffI)
    fix x assume "x \<in> {xs ! (a + i) | i. i < b - a}"
    then obtain i where "x = xs ! (a + i)" "i < b - a" by blast
    then have "x = xs ! (a + i) \<and> a \<le> a + i \<and> a + i < b" by simp
    then show "x \<in> {xs ! i | i. a \<le> i \<and> i < b}" by blast
  next
    fix x assume "x \<in> {xs ! i | i. a \<le> i \<and> i < b}"
    then obtain i where "x = xs ! i" "a \<le> i" "i < b" by blast
    then have "x = xs ! (a + (i - a)) \<and> i - a < b - a" by simp
    then show "x \<in> {xs ! (a + i) | i. i < b - a}" by blast
  qed
  finally show ?thesis .
qed

lemma rperm_refl: "rperm a b xs xs"
  by (simp add: rperm_def)

lemma rperm_trans: "rperm a b xs ys \<Longrightarrow> rperm a b ys zs \<Longrightarrow> rperm a b xs zs"
  by (simp add: rperm_def)

lemma rperm_mono: "rperm a b xs ys \<Longrightarrow> a' \<le> a \<Longrightarrow> b \<le> b' \<Longrightarrow> rperm a' b' xs ys"
  by (auto simp: rperm_def)

lemma rperm_length: "rperm a b xs ys \<Longrightarrow> length ys = length xs"
  by (simp add: rperm_def)

lemma rperm_mset: "rperm a b xs ys \<Longrightarrow> mset ys = mset xs"
  by (simp add: rperm_def)

lemma rperm_outside:
  "rperm a b xs ys \<Longrightarrow> i < length xs \<Longrightarrow> i < a \<or> b \<le> i \<Longrightarrow> ys ! i = xs ! i"
  by (auto simp: rperm_def)

lemma rperm_take: "rperm a b xs ys \<Longrightarrow> a \<le> length xs \<Longrightarrow> take a ys = take a xs"
  by (rule nth_take_lemma) (auto simp: rperm_def)

lemma rperm_drop: "rperm a b xs ys \<Longrightarrow> drop b ys = drop b xs"
  by (rule nth_equalityI) (auto simp: rperm_def)

lemma rperm_segment_mset:
  assumes "rperm a b xs ys" and "a \<le> b" and "b \<le> length xs"
  shows "mset (segment a b ys) = mset (segment a b xs)"
proof -
  have ly: "b \<le> length ys" using assms by (simp add: rperm_def)
  have "mset xs = mset (take a xs) + mset (segment a b xs) + mset (drop b xs)"
    using split_segment [OF assms(2,3)] by (metis mset_append add.assoc)
  moreover have "mset ys = mset (take a ys) + mset (segment a b ys) + mset (drop b ys)"
    using split_segment [OF assms(2) ly] by (metis mset_append add.assoc)
  moreover have "take a ys = take a xs" using assms by (intro rperm_take) auto
  moreover have "drop b ys = drop b xs" using assms(1) by (rule rperm_drop)
  moreover have "mset ys = mset xs" using assms(1) by (rule rperm_mset)
  ultimately show ?thesis by simp
qed

lemma rperm_all:
  assumes "rperm a b xs ys" and "a \<le> b" and "b \<le> length xs"
    and "\<forall>i. a \<le> i \<and> i < b \<longrightarrow> P (xs ! i)"
  shows "\<forall>i. a \<le> i \<and> i < b \<longrightarrow> P (ys ! i)"
proof -
  have ly: "b \<le> length ys" using assms by (simp add: rperm_def)
  have "set (segment a b ys) = set (segment a b xs)"
    using rperm_segment_mset [OF assms(1-3)] by (rule mset_eq_setD)
  then have "{ys ! i | i. a \<le> i \<and> i < b} = {xs ! i | i. a \<le> i \<and> i < b}"
    using set_segment [OF ly, of a] set_segment [OF assms(3), of a] by simp
  moreover have "\<forall>x \<in> {xs ! i | i. a \<le> i \<and> i < b}. P x" using assms(4) by blast
  ultimately have "\<forall>x \<in> {ys ! i | i. a \<le> i \<and> i < b}. P x" by simp
  then show ?thesis by blast
qed

lemma length_Swap [simp]: "length (Swap xs i j) = length xs"
  by (simp add: Swap_def)

lemma nth_Swap:
  "i < length xs \<Longrightarrow> j < length xs \<Longrightarrow>
     Swap xs i j ! n = (if n = j then xs ! i else if n = i then xs ! j else xs ! n)"
  by (simp add: Swap_def nth_list_update)

lemma mset_Swap: "i < length xs \<Longrightarrow> j < length xs \<Longrightarrow> mset (Swap xs i j) = mset xs"
  by (simp add: Swap_def mset_swap)

lemma rperm_Swap:
  "a \<le> i \<Longrightarrow> i < b \<Longrightarrow> a \<le> j \<Longrightarrow> j < b \<Longrightarrow> b \<le> length xs \<Longrightarrow> rperm a b xs (Swap xs i j)"
  by (simp add: rperm_def mset_Swap nth_Swap)

lemma rsortedD: "rsorted k xs a b \<Longrightarrow> a \<le> i \<Longrightarrow> i \<le> j \<Longrightarrow> j < b \<Longrightarrow> k (xs ! i) \<le> k (xs ! j)"
  by (simp add: rsorted_def)

lemma rsorted_mono: "rsorted k xs a b \<Longrightarrow> a \<le> a' \<Longrightarrow> b' \<le> b \<Longrightarrow> rsorted k xs a' b'"
  by (simp add: rsorted_def)

lemma rsorted_cong:
  "rsorted k xs a b \<Longrightarrow> \<forall>i. a \<le> i \<and> i < b \<longrightarrow> ys ! i = xs ! i \<Longrightarrow> rsorted k ys a b"
  by (simp add: rsorted_def)

lemma rsorted_whole: "rsorted k xs 0 (length xs) \<Longrightarrow> sorted (map k xs)"
  by (simp add: rsorted_def sorted_iff_nth_mono)

section \<open>insertionSort\<close>

lemma insertDown_rperm:
  "a \<le> j \<Longrightarrow> j < length xs \<Longrightarrow> rperm a (j + 1) xs (insertDown lt xs a j)"
proof (induction lt xs a j rule: insertDown.induct)
  case (1 lt xs a j)
  show ?case
  proof (cases "j > a \<and> lt (xs ! j) (xs ! (j - 1))")
    case True
    let ?xs = "Swap xs j (j - 1)"
    have eq: "insertDown lt xs a j = insertDown lt ?xs a (j - 1)"
      using True by (subst insertDown.simps) simp
    have s: "rperm a (j + 1) xs ?xs" using True "1.prems" by (intro rperm_Swap) auto
    have "rperm a (j - 1 + 1) ?xs (insertDown lt ?xs a (j - 1))"
      using True "1.prems" by (intro "1.IH") auto
    then have "rperm a (j + 1) ?xs (insertDown lt ?xs a (j - 1))"
      by (rule rperm_mono) auto
    with s show ?thesis unfolding eq by (rule rperm_trans)
  next
    case False
    then have "insertDown lt xs a j = xs" by (subst insertDown.simps) auto
    then show ?thesis by (simp add: rperm_refl)
  qed
qed

lemma moving_done:
  assumes "moving k xs a j J" and "a \<le> j" and "j \<le> J"
    and "j = a \<or> k (xs ! (j - 1)) \<le> k (xs ! j)"
  shows "rsorted k xs a (J + 1)"
  unfolding rsorted_def
proof (intro allI impI)
  fix i l assume il: "a \<le> i \<and> i \<le> l \<and> l < J + 1"
  have s1: "rsorted k xs a j" and s2: "rsorted k xs (j + 1) (J + 1)"
    and s3: "\<And>i l. a \<le> i \<Longrightarrow> i < j \<Longrightarrow> j < l \<Longrightarrow> l \<le> J \<Longrightarrow> k (xs ! i) \<le> k (xs ! l)"
    and s4: "\<And>l. j < l \<Longrightarrow> l \<le> J \<Longrightarrow> k (xs ! j) < k (xs ! l)"
    using assms(1) by (auto simp: moving_def)
  consider "l < j" | "i < j" "l = j" | "i < j" "j < l" | "i = j" "l = j" | "i = j" "j < l" | "j < i"
    using il by linarith
  then show "k (xs ! i) \<le> k (xs ! l)"
  proof cases
    case 1
    then show ?thesis using s1 il by (simp add: rsorted_def)
  next
    case 2
    then have "k (xs ! i) \<le> k (xs ! (j - 1))" using s1 il by (simp add: rsorted_def)
    moreover have "k (xs ! (j - 1)) \<le> k (xs ! j)" using assms(4) 2 il by auto
    ultimately show ?thesis using 2 by simp
  next
    case 3
    then show ?thesis using s3 [of i l] il by simp
  next
    case 4
    then show ?thesis by simp
  next
    case 5
    then show ?thesis using s4 [of l] il by simp
  next
    case 6
    then show ?thesis using s2 il by (simp add: rsorted_def)
  qed
qed

lemma moving_step:
  assumes m: "moving k xs a (Suc j) J" and "a \<le> j" and "Suc j \<le> J" and "J < length xs"
    and lt: "k (xs ! Suc j) < k (xs ! j)"
  shows "moving k (Swap xs (Suc j) j) a j J"
proof -
  let ?ys = "Swap xs (Suc j) j"
  have s1: "rsorted k xs a (Suc j)" and s2: "rsorted k xs (Suc j + 1) (J + 1)"
    and s3: "\<And>i l. a \<le> i \<Longrightarrow> i < Suc j \<Longrightarrow> Suc j < l \<Longrightarrow> l \<le> J \<Longrightarrow> k (xs ! i) \<le> k (xs ! l)"
    and s4: "\<And>l. Suc j < l \<Longrightarrow> l \<le> J \<Longrightarrow> k (xs ! Suc j) < k (xs ! l)"
    using m by (auto simp: moving_def)
  have jl: "Suc j < length xs" "j < length xs" using assms by auto
  have nj: "?ys ! j = xs ! Suc j" and nS: "?ys ! Suc j = xs ! j"
    and no: "\<And>n. n \<noteq> j \<Longrightarrow> n \<noteq> Suc j \<Longrightarrow> ?ys ! n = xs ! n"
    using jl by (simp_all add: nth_Swap)
  have 1: "rsorted k ?ys a j"
    unfolding rsorted_def
  proof (intro allI impI)
    fix i l assume il: "a \<le> i \<and> i \<le> l \<and> l < j"
    then have "?ys ! i = xs ! i" "?ys ! l = xs ! l" using no [of i] no [of l] by auto
    moreover have "k (xs ! i) \<le> k (xs ! l)" using il by (intro rsortedD [OF s1]) auto
    ultimately show "k (?ys ! i) \<le> k (?ys ! l)" by simp
  qed
  have up: "k (xs ! j) \<le> k (xs ! l)" if "Suc j < l" "l \<le> J" for l
    using s3 [of j l] that assms(2) by simp
  have 2: "rsorted k ?ys (j + 1) (J + 1)"
    unfolding rsorted_def
  proof (intro allI impI)
    fix i l assume il: "j + 1 \<le> i \<and> i \<le> l \<and> l < J + 1"
    consider "i = Suc j" "l = Suc j" | "i = Suc j" "Suc j < l" | "Suc j < i" using il by linarith
    then show "k (?ys ! i) \<le> k (?ys ! l)"
    proof cases
      case 1
      then show ?thesis by simp
    next
      case 2
      then have "?ys ! l = xs ! l" using no [of l] by simp
      moreover have "k (xs ! j) \<le> k (xs ! l)" using 2 il by (intro up) auto
      ultimately show ?thesis using 2 nS by simp
    next
      case 3
      then have "?ys ! i = xs ! i" "?ys ! l = xs ! l" using no [of i] no [of l] il by auto
      moreover have "k (xs ! i) \<le> k (xs ! l)" using 3 il by (intro rsortedD [OF s2]) auto
      ultimately show ?thesis by simp
    qed
  qed
  have 3: "\<forall>i l. a \<le> i \<and> i < j \<and> j < l \<and> l \<le> J \<longrightarrow> k (?ys ! i) \<le> k (?ys ! l)"
  proof (intro allI impI)
    fix i l assume il: "a \<le> i \<and> i < j \<and> j < l \<and> l \<le> J"
    then have yi: "?ys ! i = xs ! i" using no [of i] by simp
    show "k (?ys ! i) \<le> k (?ys ! l)"
    proof (cases "l = Suc j")
      case True
      have "k (xs ! i) \<le> k (xs ! j)" using il by (intro rsortedD [OF s1]) auto
      then show ?thesis using True yi nS by simp
    next
      case False
      then have "?ys ! l = xs ! l" using no [of l] il by simp
      moreover have "k (xs ! i) \<le> k (xs ! l)" using False il by (intro s3) auto
      ultimately show ?thesis using yi by simp
    qed
  qed
  have 4: "\<forall>l. j < l \<and> l \<le> J \<longrightarrow> k (?ys ! j) < k (?ys ! l)"
  proof (intro allI impI)
    fix l assume l: "j < l \<and> l \<le> J"
    show "k (?ys ! j) < k (?ys ! l)"
    proof (cases "l = Suc j")
      case True
      then show ?thesis using lt nj nS by simp
    next
      case False
      then have "?ys ! l = xs ! l" using no [of l] l by simp
      moreover have "k (xs ! Suc j) < k (xs ! l)" using False l by (intro s4) auto
      ultimately show ?thesis using nj by simp
    qed
  qed
  from 1 2 3 4 show ?thesis unfolding moving_def by blast
qed

lemma insertDown_moving:
  "keyed lt k \<Longrightarrow> moving k xs a j J \<Longrightarrow> a \<le> j \<Longrightarrow> j \<le> J \<Longrightarrow> J < length xs
    \<Longrightarrow> rsorted k (insertDown lt xs a j) a (J + 1)"
proof (induction lt xs a j arbitrary: rule: insertDown.induct)
  case (1 lt xs a j)
  show ?case
  proof (cases "j > a \<and> lt (xs ! j) (xs ! (j - 1))")
    case True
    let ?xs = "Swap xs j (j - 1)"
    have eq: "insertDown lt xs a j = insertDown lt ?xs a (j - 1)"
      using True by (subst insertDown.simps) simp
    have lt: "k (xs ! j) < k (xs ! (j - 1))" using True "1.prems"(1) by (simp add: keyed_def)
    obtain j' where j': "j = Suc j'" using True by (cases j) auto
    have "moving k (Swap xs (Suc j') j') a j' J"
      using "1.prems" True lt unfolding j' by (intro moving_step) auto
    then have "moving k ?xs a (j - 1) J" by (simp add: j')
    then have "rsorted k (insertDown lt ?xs a (j - 1)) a (J + 1)"
      using True "1.prems" by (intro "1.IH") auto
    then show ?thesis unfolding eq .
  next
    case False
    then have eq: "insertDown lt xs a j = xs" by (subst insertDown.simps) auto
    have "j = a \<or> k (xs ! (j - 1)) \<le> k (xs ! j)"
      using False "1.prems"(1,3) by (auto simp: keyed_def)
    then show ?thesis unfolding eq using "1.prems" by (intro moving_done [where j = j]) auto
  qed
qed

lemma insertDown_sorted:
  assumes "keyed lt k" and "rsorted k xs a j" and "a \<le> j" and "j < length xs"
  shows "rsorted k (insertDown lt xs a j) a (j + 1)"
proof -
  have "moving k xs a j j" using assms(2) by (auto simp: moving_def rsorted_def)
  then show ?thesis using assms by (intro insertDown_moving) auto
qed

lemma insertFrom_spec:
  "keyed lt k \<Longrightarrow> a \<le> i \<Longrightarrow> i \<le> b \<Longrightarrow> b \<le> length xs \<Longrightarrow> rsorted k xs a i
    \<Longrightarrow> rperm a b xs (insertFrom lt xs a b i) \<and> rsorted k (insertFrom lt xs a b i) a b"
proof (induction lt xs a b i rule: insertFrom.induct)
  case (1 lt xs a b i)
  show ?case
  proof (cases "i < b")
    case True
    let ?xs = "insertDown lt xs a i"
    have eq: "insertFrom lt xs a b i = insertFrom lt ?xs a b (i + 1)"
      using True by (subst insertFrom.simps) simp
    have il: "i < length xs" using True "1.prems" by simp
    have p: "rperm a (i + 1) xs ?xs" using "1.prems" il by (intro insertDown_rperm) auto
    have p': "rperm a b xs ?xs" using p by (rule rperm_mono) (use True in auto)
    have s: "rsorted k ?xs a (i + 1)" using "1.prems" il by (intro insertDown_sorted) auto
    have l: "length ?xs = length xs" using p by (rule rperm_length)
    have ih: "rperm a b ?xs (insertFrom lt ?xs a b (i + 1))
        \<and> rsorted k (insertFrom lt ?xs a b (i + 1)) a b"
      using True "1.prems" s l by (intro "1.IH") auto
    from ih p' have "rperm a b xs (insertFrom lt ?xs a b (i + 1))" by (blast intro: rperm_trans)
    with ih show ?thesis unfolding eq by simp
  next
    case False
    then have eq: "insertFrom lt xs a b i = xs" by (subst insertFrom.simps) simp
    have "i = b" using False "1.prems" by simp
    then show ?thesis unfolding eq using "1.prems" by (simp add: rperm_refl)
  qed
qed

lemma insertionSort_spec:
  assumes "keyed lt k" and "a \<le> b" and "b \<le> length xs"
  shows "rperm a b xs (insertionSort lt xs a b) \<and> rsorted k (insertionSort lt xs a b) a b"
proof (cases "a = b")
  case True
  then have "insertionSort lt xs a b = xs"
    unfolding insertionSort_def by (subst insertFrom.simps) simp
  then show ?thesis using True by (auto simp: rperm_refl rsorted_def)
next
  case False
  have "rsorted k xs a (a + 1)"
    unfolding rsorted_def
  proof (intro allI impI)
    fix i j assume "a \<le> i \<and> i \<le> j \<and> j < a + 1"
    then have "i = j" by linarith
    then show "k (xs ! i) \<le> k (xs ! j)" by simp
  qed
  then show ?thesis
    unfolding insertionSort_def using assms False by (intro insertFrom_spec) auto
qed

section \<open>Steps of pdqsort that only exchange elements of the range\<close>

lemma reverseLoop_rperm:
  "a \<le> i \<Longrightarrow> j < b \<Longrightarrow> b \<le> length xs \<Longrightarrow> rperm a b xs (reverseLoop xs i j)"
proof (induction xs i j rule: reverseLoop.induct)
  case (1 xs i j)
  show ?case
  proof (cases "i < j")
    case True
    have eq: "reverseLoop xs i j = reverseLoop (Swap xs i j) (i + 1) (j - 1)"
      using True by (subst reverseLoop.simps) simp
    have s: "rperm a b xs (Swap xs i j)" using True "1.prems" by (intro rperm_Swap) auto
    have "rperm a b (Swap xs i j) (reverseLoop (Swap xs i j) (i + 1) (j - 1))"
      using True "1.prems" by (intro "1.IH") auto
    with s show ?thesis unfolding eq by (rule rperm_trans)
  next
    case False
    then have "reverseLoop xs i j = xs" by (subst reverseLoop.simps) simp
    then show ?thesis by (simp add: rperm_refl)
  qed
qed

lemma reverseRange_rperm: "a < b \<Longrightarrow> b \<le> length xs \<Longrightarrow> rperm a b xs (reverseRange xs a b)"
  unfolding reverseRange_def by (intro reverseLoop_rperm) auto

lemma bitsLen_bound: "0 < n \<Longrightarrow> 2 ^ bitsLen n \<le> 2 * n"
proof (induction n rule: bitsLen.induct)
  case (1 n)
  show ?case
  proof (cases "n div 2 = 0")
    case True
    then have "n = 1" using "1.prems" by auto
    then show ?thesis by (simp add: bitsLen.simps [of "Suc 0"] bitsLen.simps [of 0])
  next
    case False
    then have "2 ^ bitsLen (n div 2) \<le> 2 * (n div 2)" using "1.IH" "1.prems" by simp
    moreover have "bitsLen n = Suc (bitsLen (n div 2))"
      using "1.prems" by (subst bitsLen.simps) simp
    ultimately show ?thesis by simp
  qed
qed

lemma other_bound:
  assumes "0 < l"
  shows "unat ((random :: 64 word) AND (nextPowerOfTwo l - 1)) < 2 * l"
proof (cases "bitsLen l < 64")
  case True
  have "nextPowerOfTwo l - 1 = (mask (bitsLen l) :: 64 word)"
    by (simp add: nextPowerOfTwo_def mask_eq_decr_exp push_bit_eq_mult)
  then have "random AND (nextPowerOfTwo l - 1) = take_bit (bitsLen l) random"
    by (simp add: take_bit_eq_mask)
  then have "unat (random AND (nextPowerOfTwo l - 1)) < 2 ^ bitsLen l"
    by (simp add: unsigned_take_bit_eq)
  with bitsLen_bound [OF assms] show ?thesis by simp
next
  case False
  then have "(2::nat) ^ 64 \<le> 2 ^ bitsLen l" by (intro power_increasing) auto
  with bitsLen_bound [OF assms] have "(2::nat) ^ 64 \<le> 2 * l" by simp
  moreover have "unat (random AND (nextPowerOfTwo l - 1)) < 2 ^ 64"
    using unsigned_less [of "random AND (nextPowerOfTwo l - 1)"] by simp
  ultimately show ?thesis by simp
qed

lemma breakLoop_rperm:
  "0 < l \<Longrightarrow> a + l = b \<Longrightarrow> b \<le> length xs \<Longrightarrow> modulus = nextPowerOfTwo l
    \<Longrightarrow> 0 < idx \<Longrightarrow> a < idx + i \<Longrightarrow> idx + i + n \<le> b + 1
    \<Longrightarrow> rperm a b xs (breakLoop xs a l idx random modulus i n)"
proof (induction n arbitrary: xs random i)
  case 0
  show ?case by (simp add: rperm_refl)
next
  case (Suc n)
  define r where "r = xorshift_Next random"
  define o0 where "o0 = unat (r AND (modulus - 1))"
  define other where "other = (if o0 \<ge> l then o0 - l else o0)"
  have "o0 < 2 * l" unfolding o0_def using Suc.prems(1,4) other_bound by simp
  then have o: "other < l" by (auto simp: other_def)
  let ?xs = "Swap xs (idx - 1 + i) (a + other)"
  have eq: "breakLoop xs a l idx random modulus i (Suc n)
      = breakLoop ?xs a l idx r modulus (i + 1) n"
    by (simp add: Let_def r_def o0_def other_def)
  have s: "rperm a b xs ?xs" using Suc.prems o by (intro rperm_Swap) auto
  have "rperm a b ?xs (breakLoop ?xs a l idx r modulus (i + 1) n)"
    using Suc.prems by (intro Suc.IH) auto
  with s show ?case unfolding eq by (rule rperm_trans)
qed

lemma breakPatterns_rperm:
  assumes "a \<le> b" and "b \<le> length xs"
  shows "rperm a b xs (breakPatterns xs a b)"
proof (cases "b - a \<ge> 8")
  case True
  define l where "l = b - a"
  have l8: "8 \<le> l" using True by (simp add: l_def)
  have d: "2 \<le> l div 4" using l8 by simp
  have h: "(l div 4) * 2 \<le> l" by simp
  have "rperm a b xs (breakLoop xs a l (a + (l div 4) * 2 - 1) (word_of_nat l)
      (nextPowerOfTwo l) 0 3)"
    using assms l8 d h by (intro breakLoop_rperm) (auto simp: l_def)
  then show ?thesis using True by (simp add: breakPatterns_def Let_def l_def)
next
  case False
  then show ?thesis by (simp add: breakPatterns_def Let_def rperm_refl)
qed

lemma median_in: "fst (median lt xs a b c s) \<in> {a, b, c}"
  by (auto simp: median_def order2_def Let_def split: if_splits)

lemma choosePivot_bounds:
  assumes "12 < b - a"
  shows "a \<le> fst (choosePivot lt xs a b) \<and> fst (choosePivot lt xs a b) < b"
proof -
  define l where "l = b - a"
  define q where "q = l div 4"
  have l: "12 < l" "b = a + l" using assms by (auto simp: l_def)
  have q: "3 \<le> q" "4 * q \<le> l" using l by (auto simp: q_def)
  define i j k where "i = a + q * 1" and "j = a + q * 2" and "k = a + q * 3"
  define i' j' k' where "i' = (if l \<ge> 50 then fst (medianAdjacent lt xs i 0) else i)"
    and "j' = (if l \<ge> 50 then fst (medianAdjacent lt xs j (snd (medianAdjacent lt xs i 0))) else j)"
    and "k' = (if l \<ge> 50 then fst (medianAdjacent lt xs k
         (snd (medianAdjacent lt xs j (snd (medianAdjacent lt xs i 0))))) else k)"
  define s' where "s' = (if l \<ge> 50 then snd (medianAdjacent lt xs k
         (snd (medianAdjacent lt xs j (snd (medianAdjacent lt xs i 0))))) else 0)"
  have adj: "fst (medianAdjacent lt xs n s) \<in> {n - 1, n, n + 1}" for n s
    using median_in [of lt xs "n - 1" n "n + 1" s] by (simp add: medianAdjacent_def)
  have bi: "a < i' \<and> i' < b"
    using adj [of i 0] q l by (auto simp: i'_def i_def j_def k_def)
  have bj: "a < j' \<and> j' < b"
    using adj [of j "snd (medianAdjacent lt xs i 0)"] q l by (auto simp: j'_def i_def j_def k_def)
  have bk: "a < k' \<and> k' < b"
    using adj [of k "snd (medianAdjacent lt xs j (snd (medianAdjacent lt xs i 0)))"] q l
    by (auto simp: k'_def i_def j_def k_def)
  have "fst (choosePivot lt xs a b) = fst (median lt xs i' j' k' s')"
    using l(1) unfolding choosePivot_def Let_def l_def [symmetric] q_def [symmetric]
      i_def [symmetric] j_def [symmetric] k_def [symmetric] i'_def j'_def k'_def s'_def
    by (auto simp: case_prod_unfold)
  moreover have "fst (median lt xs i' j' k' s') \<in> {i', j', k'}" by (rule median_in)
  ultimately show ?thesis using bi bj bk by auto
qed

section \<open>The scanning loops and the partitions\<close>

lemma scanUp_spec:
  "i \<le> scanUp up xs a i j
   \<and> (i \<le> j + 1 \<longrightarrow> scanUp up xs a i j \<le> j + 1)
   \<and> (\<forall>n. i \<le> n \<and> n < scanUp up xs a i j \<longrightarrow> up (xs ! n) (xs ! a))
   \<and> (scanUp up xs a i j \<le> j \<longrightarrow> \<not> up (xs ! scanUp up xs a i j) (xs ! a))"
proof (induction up xs a i j rule: scanUp.induct)
  case (1 up xs a i j)
  show ?case
  proof (cases "i \<le> j \<and> up (xs ! i) (xs ! a)")
    case True
    then have eq: "scanUp up xs a i j = scanUp up xs a (i + 1) j"
      by (subst scanUp.simps) simp
    have ih: "i + 1 \<le> scanUp up xs a (i + 1) j
       \<and> (i + 1 \<le> j + 1 \<longrightarrow> scanUp up xs a (i + 1) j \<le> j + 1)
       \<and> (\<forall>n. i + 1 \<le> n \<and> n < scanUp up xs a (i + 1) j \<longrightarrow> up (xs ! n) (xs ! a))
       \<and> (scanUp up xs a (i + 1) j \<le> j \<longrightarrow> \<not> up (xs ! scanUp up xs a (i + 1) j) (xs ! a))"
      using True by (intro "1.IH") simp
    have "\<forall>n. i \<le> n \<and> n < scanUp up xs a (i + 1) j \<longrightarrow> up (xs ! n) (xs ! a)"
    proof (intro allI impI)
      fix n assume n: "i \<le> n \<and> n < scanUp up xs a (i + 1) j"
      show "up (xs ! n) (xs ! a)"
      proof (cases "n = i")
        case True
        then show ?thesis using \<open>i \<le> j \<and> up (xs ! i) (xs ! a)\<close> by simp
      next
        case False
        then show ?thesis using ih n by simp
      qed
    qed
    with ih True show ?thesis unfolding eq by simp
  next
    case False
    then have eq: "scanUp up xs a i j = i" by (subst scanUp.simps) auto
    show ?thesis unfolding eq using False by auto
  qed
qed

lemma scanDown_spec:
  "0 < i \<Longrightarrow> i \<le> j + 1 \<Longrightarrow>
   scanDown down xs a i j \<le> j
   \<and> i \<le> scanDown down xs a i j + 1
   \<and> (\<forall>n. scanDown down xs a i j < n \<and> n \<le> j \<longrightarrow> down (xs ! n) (xs ! a))
   \<and> (i \<le> scanDown down xs a i j \<longrightarrow> \<not> down (xs ! scanDown down xs a i j) (xs ! a))"
proof (induction j)
  case 0
  then have "scanDown down xs a i 0 = 0" by (subst scanDown.simps) simp
  then show ?case using 0 by simp
next
  case (Suc j)
  show ?case
  proof (cases "i \<le> Suc j \<and> down (xs ! Suc j) (xs ! a)")
    case True
    then have eq: "scanDown down xs a i (Suc j) = scanDown down xs a i j"
      by (subst scanDown.simps) simp
    have ih: "scanDown down xs a i j \<le> j
       \<and> i \<le> scanDown down xs a i j + 1
       \<and> (\<forall>n. scanDown down xs a i j < n \<and> n \<le> j \<longrightarrow> down (xs ! n) (xs ! a))
       \<and> (i \<le> scanDown down xs a i j \<longrightarrow> \<not> down (xs ! scanDown down xs a i j) (xs ! a))"
      using True Suc.prems by (intro Suc.IH) auto
    have "\<forall>n. scanDown down xs a i j < n \<and> n \<le> Suc j \<longrightarrow> down (xs ! n) (xs ! a)"
    proof (intro allI impI)
      fix n assume n: "scanDown down xs a i j < n \<and> n \<le> Suc j"
      show "down (xs ! n) (xs ! a)"
      proof (cases "n = Suc j")
        case True
        then show ?thesis using \<open>i \<le> Suc j \<and> down (xs ! Suc j) (xs ! a)\<close> by simp
      next
        case False
        then show ?thesis using ih n by simp
      qed
    qed
    with ih show ?thesis unfolding eq by simp
  next
    case False
    then have eq: "scanDown down xs a i (Suc j) = Suc j" by (subst scanDown.simps) auto
    show ?thesis unfolding eq using False Suc.prems by auto
  qed
qed

lemma partLoop_spec:
  "\<forall>e p. down e p = (\<not> up e p) \<Longrightarrow> a < i \<Longrightarrow> i \<le> j + 1 \<Longrightarrow> j < b \<Longrightarrow> b \<le> length xs
    \<Longrightarrow> \<forall>n. a < n \<and> n < i \<longrightarrow> up (xs ! n) (xs ! a)
    \<Longrightarrow> \<forall>n. j < n \<and> n < b \<longrightarrow> down (xs ! n) (xs ! a)
    \<Longrightarrow> partLoop up down xs a i j = (ys, i', j')
    \<Longrightarrow> rperm (a + 1) b xs ys \<and> i' = j' + 1 \<and> a < i' \<and> j' < b
        \<and> (\<forall>n. a < n \<and> n < i' \<longrightarrow> up (ys ! n) (ys ! a))
        \<and> (\<forall>n. j' < n \<and> n < b \<longrightarrow> down (ys ! n) (ys ! a))"
proof (induction up down xs a i j rule: partLoop.induct)
  case (1 up down xs a i j)
  define i1 where "i1 = scanUp up xs a i j"
  define j1 where "j1 = scanDown down xs a i1 j"
  note ud = "1.prems"(1)
  have su: "i \<le> i1" "i1 \<le> j + 1" "\<And>n. i \<le> n \<Longrightarrow> n < i1 \<Longrightarrow> up (xs ! n) (xs ! a)"
    "i1 \<le> j \<Longrightarrow> \<not> up (xs ! i1) (xs ! a)"
    using scanUp_spec [of i up xs a j] "1.prems"(3) unfolding i1_def by auto
  have i1pos: "0 < i1" using su(1) "1.prems"(2) by simp
  have sd: "j1 \<le> j" "i1 \<le> j1 + 1" "\<And>n. j1 < n \<Longrightarrow> n \<le> j \<Longrightarrow> down (xs ! n) (xs ! a)"
    "i1 \<le> j1 \<Longrightarrow> \<not> down (xs ! j1) (xs ! a)"
    using scanDown_spec [OF i1pos su(2), of "down" xs a] unfolding j1_def by auto
  have L: "up (xs ! n) (xs ! a)" if "a < n" "n < i1" for n
  proof (cases "n < i")
    case True
    then show ?thesis using "1.prems"(6) that by simp
  next
    case False
    then show ?thesis using su(3) [of n] that by simp
  qed
  have R: "down (xs ! n) (xs ! a)" if "j1 < n" "n < b" for n
  proof (cases "n \<le> j")
    case True
    then show ?thesis using sd(3) [of n] that by simp
  next
    case False
    then show ?thesis using "1.prems"(7) that by simp
  qed
  show ?case
  proof (cases "i1 > j1")
    case True
    then have "partLoop up down xs a i j = (xs, i1, j1)"
      by (subst partLoop.simps) (simp add: i1_def j1_def Let_def)
    then have r: "ys = xs" "i' = i1" "j' = j1" using "1.prems"(8) by simp_all
    have "i1 = j1 + 1" using True sd(2) by simp
    moreover have "a < i1" using su(1) "1.prems"(2) by simp
    moreover have "j1 < b" using sd(1) "1.prems"(4) by simp
    ultimately show ?thesis unfolding r using L R by (simp add: rperm_refl)
  next
    case False
    let ?xs = "Swap xs i1 j1"
    have eq: "partLoop up down xs a i j = partLoop up down ?xs a (i1 + 1) (j1 - 1)"
      using False by (subst partLoop.simps) (simp add: i1_def j1_def Let_def)
    have le: "i1 \<le> j1" using False by simp
    have nu: "\<not> up (xs ! i1) (xs ! a)" using su(4) le sd(1) by simp
    have uj: "up (xs ! j1) (xs ! a)" using sd(4) le ud by simp
    have ne: "i1 \<noteq> j1" using nu uj by auto
    have lt: "i1 < j1" using le ne by simp
    have ai: "a < i1" using su(1) "1.prems"(2) by simp
    have jb: "j1 < b" using sd(1) "1.prems"(4) by simp
    have len: "i1 < length xs" "j1 < length xs" using lt jb "1.prems"(5) by simp_all
    have xi: "?xs ! i1 = xs ! j1" and xj: "?xs ! j1 = xs ! i1"
      and xo: "\<And>n. n \<noteq> i1 \<Longrightarrow> n \<noteq> j1 \<Longrightarrow> ?xs ! n = xs ! n"
      using len ne by (simp_all add: nth_Swap)
    have xa: "?xs ! a = xs ! a" using xo [of a] ai lt by simp
    have s: "rperm (a + 1) b xs ?xs" using ai lt jb "1.prems"(5) by (intro rperm_Swap) auto
    have L': "\<forall>n. a < n \<and> n < i1 + 1 \<longrightarrow> up (?xs ! n) (?xs ! a)"
    proof (intro allI impI)
      fix n assume n: "a < n \<and> n < i1 + 1"
      show "up (?xs ! n) (?xs ! a)"
      proof (cases "n = i1")
        case True
        then show ?thesis using xi xa uj by simp
      next
        case False
        then have "?xs ! n = xs ! n" using xo [of n] n lt by simp
        then show ?thesis using L [of n] n False xa by simp
      qed
    qed
    have R': "\<forall>n. j1 - 1 < n \<and> n < b \<longrightarrow> down (?xs ! n) (?xs ! a)"
    proof (intro allI impI)
      fix n assume n: "j1 - 1 < n \<and> n < b"
      show "down (?xs ! n) (?xs ! a)"
      proof (cases "n = j1")
        case True
        then show ?thesis using xj xa nu ud by simp
      next
        case False
        have gt: "j1 < n" using n False by auto
        then have "n \<noteq> i1" using lt by auto
        then have "?xs ! n = xs ! n" using xo [of n] False by simp
        moreover have "down (xs ! n) (xs ! a)" using R [of n] gt n by simp
        ultimately show ?thesis using xa by simp
      qed
    qed
    have ih: "rperm (a + 1) b ?xs ys \<and> i' = j' + 1 \<and> a < i' \<and> j' < b
        \<and> (\<forall>n. a < n \<and> n < i' \<longrightarrow> up (ys ! n) (ys ! a))
        \<and> (\<forall>n. j' < n \<and> n < b \<longrightarrow> down (ys ! n) (ys ! a))"
    proof (rule "1.IH" [OF i1_def j1_def])
      show "\<not> j1 < i1" using le by simp
      show "\<forall>e p. down e p = (\<not> up e p)" by (rule ud)
      show "a < i1 + 1" using ai by simp
      show "i1 + 1 \<le> j1 - 1 + 1" using lt by simp
      show "j1 - 1 < b" using jb by simp
      show "b \<le> length ?xs" using "1.prems"(5) by simp
      show "\<forall>n. a < n \<and> n < i1 + 1 \<longrightarrow> up (?xs ! n) (?xs ! a)" by (rule L')
      show "\<forall>n. j1 - 1 < n \<and> n < b \<longrightarrow> down (?xs ! n) (?xs ! a)" by (rule R')
      show "partLoop up down ?xs a (i1 + 1) (j1 - 1) = (ys, i', j')"
        using eq "1.prems"(8) by simp
    qed
    from ih s have "rperm (a + 1) b xs ys" by (blast intro: rperm_trans)
    with ih show ?thesis by simp
  qed
qed

lemma partition_via_partLoop:
  assumes "partLoop (\<lambda>e p. lt e p) (\<lambda>e p. \<not> lt e p) (Swap xs a pivot) a (a + 1) (b - 1)
      = (zs, i', j')"
  shows "\<exists>ap. partition_pdq lt xs a b pivot = (Swap zs j' a, j', ap)"
proof -
  define xs1 where "xs1 = Swap xs a pivot"
  define i1 where "i1 = scanUp (\<lambda>e p. lt e p) xs1 a (a + 1) (b - 1)"
  define j1 where "j1 = scanDown (\<lambda>e p. \<not> lt e p) xs1 a i1 (b - 1)"
  show ?thesis
  proof (cases "i1 > j1")
    case True
    have "partLoop (\<lambda>e p. lt e p) (\<lambda>e p. \<not> lt e p) xs1 a (a + 1) (b - 1) = (xs1, i1, j1)"
      using True by (subst partLoop.simps) (simp add: i1_def j1_def Let_def)
    then have "zs = xs1" "j' = j1" using assms by (simp_all add: xs1_def)
    moreover have "partition_pdq lt xs a b pivot = (Swap xs1 j1 a, j1, True)"
      using True by (simp add: partition_pdq_def Let_def xs1_def i1_def j1_def)
    ultimately show ?thesis by blast
  next
    case False
    have "partLoop (\<lambda>e p. lt e p) (\<lambda>e p. \<not> lt e p) xs1 a (a + 1) (b - 1)
        = partLoop (\<lambda>e p. lt e p) (\<lambda>e p. \<not> lt e p) (Swap xs1 i1 j1) a (i1 + 1) (j1 - 1)"
      using False by (subst partLoop.simps) (simp add: i1_def j1_def Let_def)
    then have "partLoop (\<lambda>e p. lt e p) (\<lambda>e p. \<not> lt e p) (Swap xs1 i1 j1) a (i1 + 1) (j1 - 1)
        = (zs, i', j')" using assms by (simp add: xs1_def)
    then have "partition_pdq lt xs a b pivot = (Swap zs j' a, j', False)"
      using False by (simp add: partition_pdq_def Let_def xs1_def i1_def j1_def)
    then show ?thesis by blast
  qed
qed

lemma partition_spec:
  assumes key: "keyed lt k" and ab: "a < b" "b \<le> length xs" and pv: "a \<le> pivot" "pivot < b"
    and res: "partition_pdq lt xs a b pivot = (ys, mid, ap)"
  shows "rperm a b xs ys \<and> a \<le> mid \<and> mid < b
    \<and> (\<forall>n. a \<le> n \<and> n < mid \<longrightarrow> k (ys ! n) < k (ys ! mid))
    \<and> (\<forall>n. mid < n \<and> n < b \<longrightarrow> k (ys ! mid) \<le> k (ys ! n))"
proof -
  let ?up = "\<lambda>e p. lt e p" and ?down = "\<lambda>e p. \<not> lt e p"
  define xs1 where "xs1 = Swap xs a pivot"
  obtain zs i' j' where pl: "partLoop ?up ?down xs1 a (a + 1) (b - 1) = (zs, i', j')"
    by (metis prod_cases3)
  obtain ap' where "partition_pdq lt xs a b pivot = (Swap zs j' a, j', ap')"
    using partition_via_partLoop [OF pl [unfolded xs1_def]] by blast
  then have r: "ys = Swap zs j' a" "mid = j'" using res by simp_all
  have l1: "length xs1 = length xs" by (simp add: xs1_def)
  have s1: "rperm a b xs xs1" unfolding xs1_def using ab pv by (intro rperm_Swap) auto
  have sp: "rperm (a + 1) b xs1 zs \<and> i' = j' + 1 \<and> a < i' \<and> j' < b
        \<and> (\<forall>n. a < n \<and> n < i' \<longrightarrow> ?up (zs ! n) (zs ! a))
        \<and> (\<forall>n. j' < n \<and> n < b \<longrightarrow> ?down (zs ! n) (zs ! a))"
    using ab l1 by (intro partLoop_spec [OF _ _ _ _ _ _ _ pl]) auto
  then have s2: "rperm a b xs1 zs" using rperm_mono [of "a + 1" b xs1 zs a b] by simp
  have lz: "length zs = length xs" using s2 l1 by (simp add: rperm_def)
  have aj: "a \<le> j'" "j' < b" using sp by auto
  have U: "k (zs ! n) < k (zs ! a)" if "a < n" "n \<le> j'" for n
    using sp that key by (auto simp: keyed_def)
  have D: "k (zs ! a) \<le> k (zs ! n)" if "j' < n" "n < b" for n
    using sp that key by (auto simp: keyed_def not_less)
  have len: "j' < length zs" "a < length zs" using aj ab lz by simp_all
  have ym: "ys ! j' = zs ! a" and ya: "ys ! a = zs ! j'"
    and yo: "\<And>n. n \<noteq> a \<Longrightarrow> n \<noteq> j' \<Longrightarrow> ys ! n = zs ! n"
    unfolding r using len by (simp_all add: nth_Swap)
  have s3: "rperm a b zs ys" unfolding r using aj ab lz by (intro rperm_Swap) auto
  have p: "rperm a b xs ys" using s1 s2 s3 by (blast intro: rperm_trans)
  have left: "\<forall>n. a \<le> n \<and> n < mid \<longrightarrow> k (ys ! n) < k (ys ! mid)"
  proof (intro allI impI)
    fix n assume n: "a \<le> n \<and> n < mid"
    show "k (ys ! n) < k (ys ! mid)"
    proof (cases "n = a")
      case True
      then show ?thesis using U [of j'] n ya ym r(2) by simp
    next
      case False
      then have "ys ! n = zs ! n" using yo [of n] n r(2) by simp
      then show ?thesis using U [of n] n False ym r(2) by simp
    qed
  qed
  have right: "\<forall>n. mid < n \<and> n < b \<longrightarrow> k (ys ! mid) \<le> k (ys ! n)"
  proof (intro allI impI)
    fix n assume n: "mid < n \<and> n < b"
    then have "ys ! n = zs ! n" using yo [of n] aj r(2) by simp
    then show "k (ys ! mid) \<le> k (ys ! n)" using D [of n] n ym r(2) by simp
  qed
  from p aj left right show ?thesis unfolding r(2) by simp
qed

lemma partitionEqual_spec:
  assumes key: "keyed lt k" and ab: "a < b" "b \<le> length xs" and pv: "a \<le> pivot" "pivot < b"
    and res: "partitionEqual lt xs a b pivot = (ys, mid)"
  shows "rperm a b xs ys \<and> a < mid \<and> mid \<le> b
    \<and> (\<forall>n. a \<le> n \<and> n < mid \<longrightarrow> k (ys ! n) \<le> k (xs ! pivot))
    \<and> (\<forall>n. mid \<le> n \<and> n < b \<longrightarrow> k (xs ! pivot) < k (ys ! n))"
proof -
  let ?up = "\<lambda>e p. \<not> lt p e" and ?down = "\<lambda>e p. lt p e"
  define xs1 where "xs1 = Swap xs a pivot"
  obtain zs i' j' where pl: "partLoop ?up ?down xs1 a (a + 1) (b - 1) = (zs, i', j')"
    by (metis prod_cases3)
  have r: "ys = zs" "mid = i'"
    using res pl by (simp_all add: partitionEqual_def Let_def xs1_def)
  have l1: "length xs1 = length xs" by (simp add: xs1_def)
  have s1: "rperm a b xs xs1" unfolding xs1_def using ab pv by (intro rperm_Swap) auto
  have x1a: "xs1 ! a = xs ! pivot" unfolding xs1_def using ab pv by (simp add: nth_Swap)
  have sp: "rperm (a + 1) b xs1 zs \<and> i' = j' + 1 \<and> a < i' \<and> j' < b
        \<and> (\<forall>n. a < n \<and> n < i' \<longrightarrow> ?up (zs ! n) (zs ! a))
        \<and> (\<forall>n. j' < n \<and> n < b \<longrightarrow> ?down (zs ! n) (zs ! a))"
    using ab l1 by (intro partLoop_spec [OF _ _ _ _ _ _ _ pl]) auto
  then have s2: "rperm a b xs1 zs" using rperm_mono [of "a + 1" b xs1 zs a b] by simp
  have za: "zs ! a = xs ! pivot"
    using sp x1a ab l1 rperm_outside [of "a + 1" b xs1 zs a] by simp
  have p: "rperm a b xs ys" unfolding r using s1 s2 by (rule rperm_trans)
  have left: "\<forall>n. a \<le> n \<and> n < mid \<longrightarrow> k (ys ! n) \<le> k (xs ! pivot)"
  proof (intro allI impI)
    fix n assume n: "a \<le> n \<and> n < mid"
    show "k (ys ! n) \<le> k (xs ! pivot)"
    proof (cases "n = a")
      case True
      then show ?thesis using za r by simp
    next
      case False
      then have "\<not> lt (zs ! a) (zs ! n)" using sp n r by simp
      then show ?thesis using key za r by (simp add: keyed_def not_less)
    qed
  qed
  have right: "\<forall>n. mid \<le> n \<and> n < b \<longrightarrow> k (xs ! pivot) < k (ys ! n)"
  proof (intro allI impI)
    fix n assume n: "mid \<le> n \<and> n < b"
    then have "lt (zs ! a) (zs ! n)" using sp r by simp
    then show "k (xs ! pivot) < k (ys ! n)" using key za r by (simp add: keyed_def)
  qed
  have "a < mid" "mid \<le> b" using sp r by auto
  with p left right show ?thesis by simp
qed

section \<open>partialInsertionSort\<close>

lemma lowerBound_rperm:
  assumes "lowerBound k xs a b" and "rperm a b xs ys" and "a \<le> b" and "b \<le> length xs"
  shows "lowerBound k ys a b"
proof (cases "a = 0")
  case True
  then show ?thesis by (simp add: lowerBound_def)
next
  case False
  then have "\<forall>n. a \<le> n \<and> n < b \<longrightarrow> k (xs ! (a - 1)) \<le> k (xs ! n)"
    using assms(1) by (simp add: lowerBound_def)
  then have "\<forall>n. a \<le> n \<and> n < b \<longrightarrow> k (xs ! (a - 1)) \<le> k (ys ! n)"
    by (rule rperm_all [OF assms(2,3,4), where P = "\<lambda>x. k (xs ! (a - 1)) \<le> k x"])
  moreover have "ys ! (a - 1) = xs ! (a - 1)"
    using False assms(3,4) by (intro rperm_outside [OF assms(2)]) auto
  ultimately show ?thesis by (simp add: lowerBound_def)
qed

lemma rsorted_extend:
  assumes "rsorted k xs a i" and "a < i" and "k (xs ! (i - 1)) \<le> k (xs ! i)"
  shows "rsorted k xs a (i + 1)"
  unfolding rsorted_def
proof (intro allI impI)
  fix m n assume mn: "a \<le> m \<and> m \<le> n \<and> n < i + 1"
  show "k (xs ! m) \<le> k (xs ! n)"
  proof (cases "n < i")
    case True
    then show ?thesis using mn by (intro rsortedD [OF assms(1)]) auto
  next
    case False
    then have n: "n = i" using mn by simp
    show ?thesis
    proof (cases "m = i")
      case True
      then show ?thesis using n by simp
    next
      case False
      then have "k (xs ! m) \<le> k (xs ! (i - 1))"
        using mn n assms(2) by (intro rsortedD [OF assms(1)]) auto
      then show ?thesis using assms(3) n by simp
    qed
  qed
qed

lemma rsorted_single: "rsorted k xs a (a + 1)"
  unfolding rsorted_def
proof (intro allI impI)
  fix i j assume "a \<le> i \<and> i \<le> j \<and> j < a + 1"
  then have "i = j" by linarith
  then show "k (xs ! i) \<le> k (xs ! j)" by simp
qed

lemma scanSorted_spec:
  "keyed lt k \<Longrightarrow> a < i \<Longrightarrow> i \<le> b \<Longrightarrow> rsorted k xs a i
    \<Longrightarrow> i \<le> scanSorted lt xs i b \<and> scanSorted lt xs i b \<le> b
        \<and> rsorted k xs a (scanSorted lt xs i b)
        \<and> (scanSorted lt xs i b < b
             \<longrightarrow> k (xs ! scanSorted lt xs i b) < k (xs ! (scanSorted lt xs i b - 1)))"
proof (induction lt xs i b rule: scanSorted.induct)
  case (1 lt xs i b)
  show ?case
  proof (cases "i < b \<and> \<not> lt (xs ! i) (xs ! (i - 1))")
    case True
    then have eq: "scanSorted lt xs i b = scanSorted lt xs (i + 1) b"
      by (subst scanSorted.simps) simp
    have "k (xs ! (i - 1)) \<le> k (xs ! i)" using True "1.prems"(1) by (simp add: keyed_def not_less)
    then have "rsorted k xs a (i + 1)" using "1.prems" by (intro rsorted_extend) auto
    then have "i + 1 \<le> scanSorted lt xs (i + 1) b \<and> scanSorted lt xs (i + 1) b \<le> b
        \<and> rsorted k xs a (scanSorted lt xs (i + 1) b)
        \<and> (scanSorted lt xs (i + 1) b < b
             \<longrightarrow> k (xs ! scanSorted lt xs (i + 1) b) < k (xs ! (scanSorted lt xs (i + 1) b - 1)))"
      using True "1.prems" by (intro "1.IH") auto
    then show ?thesis unfolding eq by simp
  next
    case False
    then have eq: "scanSorted lt xs i b = i" by (subst scanSorted.simps) auto
    show ?thesis unfolding eq using False "1.prems" by (auto simp: keyed_def)
  qed
qed

lemma shiftLeft_insertDown:
  "keyed lt k \<Longrightarrow> a \<le> j \<Longrightarrow> j < b \<Longrightarrow> b \<le> length xs \<Longrightarrow> lowerBound k xs a b
    \<Longrightarrow> shiftLeft lt xs j = insertDown lt xs a j"
proof (induction lt xs j rule: shiftLeft.induct)
  case (1 lt xs j)
  show ?case
  proof (cases "j \<ge> 1 \<and> lt (xs ! j) (xs ! (j - 1))")
    case True
    have ltk: "k (xs ! j) < k (xs ! (j - 1))" using True "1.prems"(1) by (simp add: keyed_def)
    have aj: "a < j"
    proof (rule ccontr)
      assume "\<not> a < j"
      then have "j = a" using "1.prems"(2) by simp
      then have "k (xs ! (a - 1)) \<le> k (xs ! a)"
        using "1.prems"(3,5) True by (auto simp: lowerBound_def)
      then show False using ltk \<open>j = a\<close> by simp
    qed
    let ?xs = "Swap xs j (j - 1)"
    have e1: "shiftLeft lt xs j = shiftLeft lt ?xs (j - 1)"
      using True by (subst shiftLeft.simps) simp
    have e2: "insertDown lt xs a j = insertDown lt ?xs a (j - 1)"
      using True aj by (subst insertDown.simps) simp
    have sw: "rperm a b xs ?xs" using aj "1.prems" by (intro rperm_Swap) auto
    have lb: "lowerBound k ?xs a b"
      using "1.prems"(5) sw by (rule lowerBound_rperm) (use "1.prems" in auto)
    have "shiftLeft lt ?xs (j - 1) = insertDown lt ?xs a (j - 1)"
      using True aj "1.prems" lb by (intro "1.IH") auto
    then show ?thesis unfolding e1 e2 .
  next
    case False
    then have "shiftLeft lt xs j = xs" by (subst shiftLeft.simps) auto
    moreover have "insertDown lt xs a j = xs" using False by (subst insertDown.simps) auto
    ultimately show ?thesis by simp
  qed
qed

lemma shiftRight_rperm:
  "lo < j \<Longrightarrow> b \<le> length xs \<Longrightarrow> rperm lo b xs (shiftRight lt xs j b)"
proof (induction lt xs j b rule: shiftRight.induct)
  case (1 lt xs j b)
  show ?case
  proof (cases "j < b \<and> lt (xs ! j) (xs ! (j - 1))")
    case True
    let ?xs = "Swap xs j (j - 1)"
    have eq: "shiftRight lt xs j b = shiftRight lt ?xs (j + 1) b"
      using True by (subst shiftRight.simps) simp
    have s: "rperm lo b xs ?xs" using True "1.prems" by (intro rperm_Swap) auto
    have "rperm lo b ?xs (shiftRight lt ?xs (j + 1) b)"
      using True "1.prems" by (intro "1.IH") auto
    with s show ?thesis unfolding eq by (rule rperm_trans)
  next
    case False
    then have "shiftRight lt xs j b = xs" by (subst shiftRight.simps) auto
    then show ?thesis by (simp add: rperm_refl)
  qed
qed

lemma rsorted_outside:
  assumes "rsorted k xs a i" and "rperm i b xs ys" and "i \<le> length xs"
  shows "rsorted k ys a i"
proof (rule rsorted_cong [OF assms(1)], intro allI impI)
  fix n assume "a \<le> n \<and> n < i"
  then show "ys ! n = xs ! n" using assms(3) by (intro rperm_outside [OF assms(2)]) auto
qed

lemma partialLoop_spec:
  "keyed lt k \<Longrightarrow> a < i \<Longrightarrow> i \<le> b \<Longrightarrow> b \<le> length xs \<Longrightarrow> lowerBound k xs a b
    \<Longrightarrow> rsorted k xs a i
    \<Longrightarrow> rperm a b xs (fst (partialLoop lt xs a b i n))
        \<and> (snd (partialLoop lt xs a b i n) \<longrightarrow> rsorted k (fst (partialLoop lt xs a b i n)) a b)"
proof (induction n arbitrary: xs i)
  case 0
  show ?case by (simp add: rperm_refl)
next
  case (Suc n)
  define i1 where "i1 = scanSorted lt xs i b"
  have sc: "i \<le> i1" "i1 \<le> b" "rsorted k xs a i1"
    using scanSorted_spec [OF Suc.prems(1,2,3,6)] unfolding i1_def by auto
  have ai: "a < i1" using sc(1) Suc.prems(2) by simp
  show ?case
  proof (cases "i1 = b")
    case True
    then have "partialLoop lt xs a b i (Suc n) = (xs, True)" by (simp add: i1_def Let_def)
    then show ?thesis using sc(3) True by (simp add: rperm_refl)
  next
    case nb: False
    show ?thesis
    proof (cases "b - a < 50")
      case True
      then have "partialLoop lt xs a b i (Suc n) = (xs, False)"
        using nb by (simp add: i1_def Let_def)
      then show ?thesis by (simp add: rperm_refl)
    next
      case False
      obtain i0 where i0: "i1 = Suc i0" using ai by (cases i1) auto
      have ib: "i1 < b" using nb sc(2) by simp
      define xs1 where "xs1 = Swap xs i1 (i1 - 1)"
      define xs2 where "xs2 = (if i1 - a \<ge> 2 then shiftLeft lt xs1 (i1 - 1) else xs1)"
      define xs3 where "xs3 = (if b - i1 \<ge> 2 then shiftRight lt xs2 (i1 + 1) b else xs2)"
      have eq: "partialLoop lt xs a b i (Suc n) = partialLoop lt xs3 a b i1 n"
        using nb False by (simp add: i1_def Let_def xs1_def xs2_def xs3_def)
      have p1: "rperm a b xs xs1"
        unfolding xs1_def using ai ib Suc.prems(4) by (intro rperm_Swap) auto
      have l1: "length xs1 = length xs" by (simp add: xs1_def)
      have lb1: "lowerBound k xs1 a b"
        using Suc.prems(5) p1 by (rule lowerBound_rperm) (use ai ib Suc.prems(4) in auto)
      have s1: "rsorted k xs1 a i0"
      proof (rule rsorted_cong [of k xs a i0])
        show "rsorted k xs a i0" using sc(3) by (rule rsorted_mono) (use i0 in auto)
        show "\<forall>n. a \<le> n \<and> n < i0 \<longrightarrow> xs1 ! n = xs ! n"
          using i0 ib Suc.prems(4) by (auto simp: xs1_def nth_Swap)
      qed
      have p2: "rperm a i1 xs1 xs2 \<and> rsorted k xs2 a i1"
      proof (cases "i1 - a \<ge> 2")
        case True
        then have a0: "a \<le> i0" using i0 by simp
        have "shiftLeft lt xs1 i0 = insertDown lt xs1 a i0"
          using Suc.prems(1) a0 i0 ib l1 Suc.prems(4) lb1
          by (intro shiftLeft_insertDown [where b = b]) auto
        then have x2: "xs2 = insertDown lt xs1 a i0" using True i0 by (simp add: xs2_def)
        have "rperm a (i0 + 1) xs1 (insertDown lt xs1 a i0)"
          using a0 i0 ib l1 Suc.prems(4) by (intro insertDown_rperm) auto
        moreover have "rsorted k (insertDown lt xs1 a i0) a (i0 + 1)"
          using Suc.prems(1) s1 a0 i0 ib l1 Suc.prems(4) by (intro insertDown_sorted) auto
        ultimately show ?thesis unfolding x2 using i0 by simp
      next
        case False
        then have "i1 = a + 1" using ai by simp
        moreover have "xs2 = xs1" using False by (simp add: xs2_def)
        ultimately show ?thesis using rsorted_single [of k xs1 a] by (simp add: rperm_refl)
      qed
      have l2: "length xs2 = length xs" using p2 l1 by (simp add: rperm_def)
      have p3: "rperm i1 b xs2 xs3"
      proof (cases "b - i1 \<ge> 2")
        case True
        have "rperm i1 b xs2 (shiftRight lt xs2 (i1 + 1) b)"
          using l2 Suc.prems(4) by (intro shiftRight_rperm) auto
        then show ?thesis using True by (simp add: xs3_def)
      next
        case False
        then show ?thesis by (simp add: xs3_def rperm_refl)
      qed
      have s3: "rsorted k xs3 a i1"
        using p2 p3 ib l2 Suc.prems(4) by (intro rsorted_outside [of k xs2 a i1 b xs3]) auto
      have p12: "rperm a b xs1 xs2"
        using conjunct1 [OF p2] by (rule rperm_mono) (use ib in auto)
      have p23: "rperm a b xs2 xs3"
        using p3 by (rule rperm_mono) (use ai in auto)
      have p: "rperm a b xs xs3" using p1 p12 p23 by (blast intro: rperm_trans)
      have l3: "length xs3 = length xs" using p by (simp add: rperm_def)
      have lb3: "lowerBound k xs3 a b"
        using Suc.prems(5) p by (rule lowerBound_rperm) (use ai ib Suc.prems(4) in auto)
      have ih: "rperm a b xs3 (fst (partialLoop lt xs3 a b i1 n))
          \<and> (snd (partialLoop lt xs3 a b i1 n)
               \<longrightarrow> rsorted k (fst (partialLoop lt xs3 a b i1 n)) a b)"
        using Suc.prems(1) ai sc(2) l3 Suc.prems(4) lb3 s3 by (intro Suc.IH) auto
      from ih p have "rperm a b xs (fst (partialLoop lt xs3 a b i1 n))"
        by (blast intro: rperm_trans)
      with ih show ?thesis unfolding eq by simp
    qed
  qed
qed

lemma partialInsertionSort_spec:
  assumes "keyed lt k" and "a < b" and "b \<le> length xs" and "lowerBound k xs a b"
  shows "rperm a b xs (fst (partialInsertionSort lt xs a b))
    \<and> (snd (partialInsertionSort lt xs a b)
         \<longrightarrow> rsorted k (fst (partialInsertionSort lt xs a b)) a b)"
  unfolding partialInsertionSort_def
  using assms rsorted_single [of k xs a] by (intro partialLoop_spec) auto

section \<open>heapSort\<close>

lemma siftDown_leaf: "hi \<le> 2 * r + 1 \<Longrightarrow> siftDown lt xs r hi first = xs"
  by (subst siftDown.simps) (simp add: Let_def)

lemma siftDown_stop:
  "2 * r + 1 < hi \<Longrightarrow> \<not> lt (xs ! (first + r)) (xs ! (first + larger lt xs r hi first))
    \<Longrightarrow> siftDown lt xs r hi first = xs"
  by (subst siftDown.simps) (auto simp: Let_def larger_def split: if_splits)

lemma siftDown_step:
  "2 * r + 1 < hi \<Longrightarrow> lt (xs ! (first + r)) (xs ! (first + larger lt xs r hi first))
    \<Longrightarrow> siftDown lt xs r hi first
        = siftDown lt (Swap xs (first + r) (first + larger lt xs r hi first))
            (larger lt xs r hi first) hi first"
  by (subst siftDown.simps) (auto simp: Let_def larger_def split: if_splits)

lemma larger_child:
  assumes "2 * r + 1 < hi"
  shows "(larger lt xs r hi first = 2 * r + 1 \<or> larger lt xs r hi first = 2 * r + 2)
    \<and> larger lt xs r hi first < hi"
  using assms by (auto simp: larger_def)

lemma larger_max:
  assumes "keyed lt k" and "2 * r + 1 < hi" and "c = 2 * r + 1 \<or> c = 2 * r + 2" and "c < hi"
  shows "k (xs ! (first + c)) \<le> k (xs ! (first + larger lt xs r hi first))"
proof -
  have e: "first + (2 * r + 1) + 1 = first + (2 * r + 2)" by simp
  show ?thesis
  proof (cases "2 * r + 2 < hi \<and> k (xs ! (first + (2 * r + 1))) < k (xs ! (first + (2 * r + 2)))")
    case True
    then have "larger lt xs r hi first = 2 * r + 2"
      using assms(1) by (simp add: larger_def keyed_def e)
    then show ?thesis using assms(3) True by auto
  next
    case False
    then have l: "larger lt xs r hi first = 2 * r + 1"
      using assms(1) by (auto simp: larger_def keyed_def e)
    show ?thesis
    proof (cases "c = 2 * r + 1")
      case True
      then show ?thesis using l by simp
    next
      case c2: False
      then have "c = 2 * r + 2" using assms(3) by simp
      then show ?thesis using False assms(4) l by (auto simp: not_less)
    qed
  qed
qed

lemma siftDown_rperm:
  "first + hi \<le> length xs \<Longrightarrow> rperm (first + r) (first + hi) xs (siftDown lt xs r hi first)"
proof (induction "hi - r" arbitrary: r xs rule: less_induct)
  case less
  show ?case
  proof (cases "2 * r + 1 < hi")
    case False
    then show ?thesis by (simp add: siftDown_leaf rperm_refl)
  next
    case True
    define c where "c = larger lt xs r hi first"
    have c: "(c = 2 * r + 1 \<or> c = 2 * r + 2) \<and> c < hi"
      unfolding c_def using True by (rule larger_child)
    show ?thesis
    proof (cases "lt (xs ! (first + r)) (xs ! (first + c))")
      case False
      then show ?thesis using True by (simp add: siftDown_stop c_def rperm_refl)
    next
      case lt: True
      let ?xs = "Swap xs (first + r) (first + c)"
      have eq: "siftDown lt xs r hi first = siftDown lt ?xs c hi first"
        using True lt unfolding c_def by (rule siftDown_step)
      have s: "rperm (first + r) (first + hi) xs ?xs"
        using c less.prems by (intro rperm_Swap) auto
      have "rperm (first + c) (first + hi) ?xs (siftDown lt ?xs c hi first)"
        using c less.prems by (intro less.hyps) auto
      then have "rperm (first + r) (first + hi) ?xs (siftDown lt ?xs c hi first)"
        by (rule rperm_mono) (use c in auto)
      with s show ?thesis unfolding eq by (rule rperm_trans)
    qed
  qed
qed

lemma siftDown_heap:
  "keyed lt k \<Longrightarrow> almostHeap k xs first lo hi r \<Longrightarrow> lo \<le> r \<Longrightarrow> first + hi \<le> length xs
    \<Longrightarrow> heapFrom k (siftDown lt xs r hi first) first lo hi"
proof (induction "hi - r" arbitrary: r xs rule: less_induct)
  case less
  have H1: "\<And>i. lo \<le> i \<Longrightarrow> i < hi \<Longrightarrow> i \<noteq> r \<Longrightarrow> heapAt k xs first hi i"
    and H2: "\<And>p c. lo \<le> p \<Longrightarrow> r = 2 * p + 1 \<or> r = 2 * p + 2 \<Longrightarrow> c = 2 * r + 1 \<or> c = 2 * r + 2
        \<Longrightarrow> c < hi \<Longrightarrow> k (xs ! (first + c)) \<le> k (xs ! (first + p))"
    using less.prems(2) unfolding almostHeap_def by blast+
  show ?case
  proof (cases "2 * r + 1 < hi")
    case False
    have "heapAt k xs first hi r" using False by (auto simp: heapAt_def)
    then have "heapFrom k xs first lo hi" using H1 unfolding heapFrom_def by blast
    then show ?thesis using False by (simp add: siftDown_leaf)
  next
    case True
    define c where "c = larger lt xs r hi first"
    have c: "c = 2 * r + 1 \<or> c = 2 * r + 2" "c < hi"
      unfolding c_def using larger_child [OF True] by auto
    have cmax: "\<And>d. d = 2 * r + 1 \<or> d = 2 * r + 2 \<Longrightarrow> d < hi
        \<Longrightarrow> k (xs ! (first + d)) \<le> k (xs ! (first + c))"
      unfolding c_def using less.prems(1) True by (rule larger_max)
    show ?thesis
    proof (cases "lt (xs ! (first + r)) (xs ! (first + c))")
      case False
      then have "k (xs ! (first + c)) \<le> k (xs ! (first + r))"
        using less.prems(1) by (simp add: keyed_def not_less)
      then have "heapAt k xs first hi r"
        unfolding heapAt_def
      proof (intro allI impI)
        fix d assume d: "(d = 2 * r + 1 \<or> d = 2 * r + 2) \<and> d < hi"
        assume cr: "k (xs ! (first + c)) \<le> k (xs ! (first + r))"
        have "k (xs ! (first + d)) \<le> k (xs ! (first + c))" using cmax [of d] d by simp
        with cr show "k (xs ! (first + d)) \<le> k (xs ! (first + r))" by simp
      qed
      then have "heapFrom k xs first lo hi" using H1 unfolding heapFrom_def by blast
      then show ?thesis using True False by (simp add: siftDown_stop c_def)
    next
      case lt: True
      then have rc: "k (xs ! (first + r)) < k (xs ! (first + c))"
        using less.prems(1) by (simp add: keyed_def)
      let ?xs = "Swap xs (first + r) (first + c)"
      have eq: "siftDown lt xs r hi first = siftDown lt ?xs c hi first"
        using True lt unfolding c_def by (rule siftDown_step)
      have len: "first + r < length xs" "first + c < length xs"
        using c True less.prems(4) by auto
      have ne: "first + r \<noteq> first + c" using c by auto
      have yr: "?xs ! (first + r) = xs ! (first + c)" and yc: "?xs ! (first + c) = xs ! (first + r)"
        and yo: "\<And>n. n \<noteq> r \<Longrightarrow> n \<noteq> c \<Longrightarrow> ?xs ! (first + n) = xs ! (first + n)"
        using len ne by (simp_all add: nth_Swap)
      have A1: "heapAt k ?xs first hi i" if i: "lo \<le> i" "i < hi" "i \<noteq> c" for i
        unfolding heapAt_def
      proof (intro allI impI)
        fix d assume d: "(d = 2 * i + 1 \<or> d = 2 * i + 2) \<and> d < hi"
        show "k (?xs ! (first + d)) \<le> k (?xs ! (first + i))"
        proof (cases "i = r")
          case True
          show ?thesis
          proof (cases "d = c")
            case True
            then show ?thesis using yr yc rc \<open>i = r\<close> by simp
          next
            case False
            then have "?xs ! (first + d) = xs ! (first + d)" using yo [of d] d True by auto
            moreover have "k (xs ! (first + d)) \<le> k (xs ! (first + c))"
              using cmax [of d] d True by simp
            ultimately show ?thesis using yr True by simp
          qed
        next
          case False
          then have vi: "?xs ! (first + i) = xs ! (first + i)" using yo [of i] i(3) by simp
          have dc: "d \<noteq> c" using d c False by auto
          have hi: "k (xs ! (first + d)) \<le> k (xs ! (first + i))"
            using H1 [OF i(1,2) False] d unfolding heapAt_def by blast
          show ?thesis
          proof (cases "d = r")
            case True
            then have "k (xs ! (first + c)) \<le> k (xs ! (first + i))"
              using H2 [of i c] i(1) d c by auto
            then show ?thesis using True yr vi by simp
          next
            case False
            then have "?xs ! (first + d) = xs ! (first + d)" using yo [of d] dc by simp
            then show ?thesis using hi vi by simp
          qed
        qed
      qed
      have A2: "k (?xs ! (first + d)) \<le> k (?xs ! (first + p))"
        if "lo \<le> p" "c = 2 * p + 1 \<or> c = 2 * p + 2" "d = 2 * c + 1 \<or> d = 2 * c + 2" "d < hi" for p d
      proof -
        have pr: "p = r" using that(2) c(1) by auto
        have "d \<noteq> r" "d \<noteq> c" using that(3) c(1) by auto
        then have "?xs ! (first + d) = xs ! (first + d)" using yo [of d] by simp
        moreover have "heapAt k xs first hi c" using c less.prems(3) by (intro H1) auto
        then have "k (xs ! (first + d)) \<le> k (xs ! (first + c))"
          using that(3,4) unfolding heapAt_def by blast
        ultimately show ?thesis using pr yr by simp
      qed
      have "almostHeap k ?xs first lo hi c" unfolding almostHeap_def using A1 A2 by blast
      then have "heapFrom k (siftDown lt ?xs c hi first) first lo hi"
        using c less.prems by (intro less.hyps) auto
      then show ?thesis unfolding eq .
    qed
  qed
qed

lemma heapBuild_spec:
  "keyed lt k \<Longrightarrow> first + hi \<le> length xs \<Longrightarrow> heapFrom k xs first (Suc i) hi
    \<Longrightarrow> rperm first (first + hi) xs (heapBuild lt xs hi first i)
        \<and> heapFrom k (heapBuild lt xs hi first i) first 0 hi"
proof (induction i arbitrary: xs)
  case 0
  have al: "almostHeap k xs first 0 hi 0"
    using "0.prems"(3) unfolding almostHeap_def heapFrom_def by auto
  have h: "heapFrom k (siftDown lt xs 0 hi first) first 0 hi"
    using "0.prems"(1) al _ "0.prems"(2) by (rule siftDown_heap) simp
  have "rperm (first + 0) (first + hi) xs (siftDown lt xs 0 hi first)"
    using "0.prems"(2) by (rule siftDown_rperm)
  with h show ?case by simp
next
  case (Suc i)
  define ys where "ys = siftDown lt xs (Suc i) hi first"
  have al: "almostHeap k xs first (Suc i) hi (Suc i)"
    using Suc.prems(3) unfolding almostHeap_def heapFrom_def by auto
  have h: "heapFrom k ys first (Suc i) hi"
    unfolding ys_def using Suc.prems(1) al _ Suc.prems(2) by (rule siftDown_heap) simp
  have r0: "rperm (first + Suc i) (first + hi) xs ys"
    unfolding ys_def using Suc.prems(2) by (rule siftDown_rperm)
  have r: "rperm first (first + hi) xs ys"
    by (rule rperm_mono [OF r0]) auto
  have l: "first + hi \<le> length ys" using r Suc.prems(2) by (simp add: rperm_def)
  have "rperm first (first + hi) ys (heapBuild lt ys hi first i)
      \<and> heapFrom k (heapBuild lt ys hi first i) first 0 hi"
    using Suc.prems(1) l h by (rule Suc.IH)
  then show ?case using r unfolding ys_def [symmetric] heapBuild.simps
    by (auto elim: rperm_trans)
qed

lemma heapFrom_leaves: "hi \<le> 2 * lo \<Longrightarrow> heapFrom k xs first lo hi"
  by (auto simp: heapFrom_def heapAt_def)

lemma heap_root_max:
  "heapFrom k xs first 0 hi \<Longrightarrow> j < hi \<Longrightarrow> k (xs ! (first + j)) \<le> k (xs ! first)"
proof (induction j rule: less_induct)
  case (less j)
  show ?case
  proof (cases "j = 0")
    case True
    then show ?thesis by simp
  next
    case False
    define p where "p = (j - 1) div 2"
    have pj: "j = 2 * p + 1 \<or> j = 2 * p + 2" using False unfolding p_def by presburger
    then have plt: "p < j" by auto
    have "heapAt k xs first hi p" using less.prems plt by (simp add: heapFrom_def)
    then have "k (xs ! (first + j)) \<le> k (xs ! (first + p))"
      using pj less.prems(2) unfolding heapAt_def by blast
    moreover have "k (xs ! (first + p)) \<le> k (xs ! first)"
      using less.IH [OF plt less.prems(1)] plt less.prems(2) by simp
    ultimately show ?thesis by simp
  qed
qed

lemma rperm_nth_ex:
  assumes "rperm a b xs ys" and "a \<le> b" and "b \<le> length xs" and "a \<le> n" and "n < b"
  shows "\<exists>m. a \<le> m \<and> m < b \<and> ys ! n = xs ! m"
proof -
  have "\<forall>i. a \<le> i \<and> i < b \<longrightarrow> (\<exists>m. a \<le> m \<and> m < b \<and> ys ! i = xs ! m)"
    using assms(1-3) by (rule rperm_all) blast
  then show ?thesis using assms(4,5) by blast
qed

lemma heapPop_spec:
  "keyed lt k \<Longrightarrow> first + hi \<le> length xs \<Longrightarrow> i < hi \<Longrightarrow> heapFrom k xs first 0 (Suc i)
    \<Longrightarrow> rsorted k xs (first + Suc i) (first + hi)
    \<Longrightarrow> \<forall>m n. first \<le> m \<and> m \<le> first + i \<and> first + i < n \<and> n < first + hi
          \<longrightarrow> k (xs ! m) \<le> k (xs ! n)
    \<Longrightarrow> rperm first (first + hi) xs (heapPop lt xs first i)
        \<and> rsorted k (heapPop lt xs first i) first (first + hi)"
proof (induction i arbitrary: xs)
  case 0
  have e: "heapPop lt xs first 0 = xs"
    by (simp add: siftDown_leaf Swap_def)
  have "rsorted k xs first (first + hi)"
    unfolding rsorted_def
  proof (intro allI impI)
    fix m n assume mn: "first \<le> m \<and> m \<le> n \<and> n < first + hi"
    show "k (xs ! m) \<le> k (xs ! n)"
    proof (cases "m = first")
      case True
      show ?thesis
      proof (cases "n = first")
        case True
        with \<open>m = first\<close> show ?thesis by simp
      next
        case False
        with True mn "0.prems"(6) show ?thesis by simp
      qed
    next
      case False
      with mn "0.prems"(5) show ?thesis by (intro rsortedD [of k xs "first + Suc 0" "first + hi"]) auto
    qed
  qed
  then show ?case unfolding e by (simp add: rperm_refl)
next
  case (Suc i)
  define ys where "ys = Swap xs first (first + Suc i)"
  define zs where "zs = siftDown lt ys 0 (Suc i) first"
  have lx: "first + Suc i < length xs" using Suc.prems(2,3) by simp
  have ly: "length ys = length xs" by (simp add: ys_def)
  have ny: "ys ! n = (if n = first + Suc i then xs ! first
                      else if n = first then xs ! (first + Suc i) else xs ! n)" for n
    unfolding ys_def using lx by (simp add: nth_Swap)
  have rxy: "rperm first (first + hi) xs ys"
    unfolding ys_def using Suc.prems(2,3) by (intro rperm_Swap) auto
  have rxy': "rperm first (first + Suc (Suc i)) xs ys"
    unfolding ys_def using Suc.prems(2,3) by (intro rperm_Swap) auto
  have ryz0: "rperm (first + 0) (first + Suc i) ys zs"
    unfolding zs_def using lx ly by (intro siftDown_rperm) simp
  then have ryz': "rperm first (first + Suc i) ys zs" by simp
  have ryz: "rperm first (first + hi) ys zs"
    by (rule rperm_mono [OF ryz']) (use Suc.prems(3) in auto)
  have lz: "length zs = length xs" using ryz ly by (simp add: rperm_def)
  have nz: "zs ! n = ys ! n" if "first + Suc i \<le> n" "n < length xs" for n
    using rperm_outside [OF ryz', of n] that ly by simp
  \<comment> \<open>the root of the heap is its greatest element\<close>
  have root: "k (xs ! (first + j)) \<le> k (xs ! first)" if "j < Suc (Suc i)" for j
    using Suc.prems(4) that by (rule heap_root_max)
  \<comment> \<open>the heap without its last element, with a new root\<close>
  have al: "almostHeap k ys first 0 (Suc i) 0"
    unfolding almostHeap_def
  proof (intro conjI allI impI)
    fix j assume j: "0 \<le> j \<and> j < Suc i \<and> j \<noteq> 0"
    have hx: "heapAt k xs first (Suc (Suc i)) j" using Suc.prems(4) j by (simp add: heapFrom_def)
    show "heapAt k ys first (Suc i) j"
      unfolding heapAt_def
    proof (intro allI impI)
      fix c assume c: "(c = 2 * j + 1 \<or> c = 2 * j + 2) \<and> c < Suc i"
      have "k (xs ! (first + c)) \<le> k (xs ! (first + j))"
        using hx c unfolding heapAt_def by auto
      moreover have "ys ! (first + c) = xs ! (first + c)" using c j by (auto simp: ny)
      moreover have "ys ! (first + j) = xs ! (first + j)" using j by (simp add: ny)
      ultimately show "k (ys ! (first + c)) \<le> k (ys ! (first + j))" by simp
    qed
  next
    fix p c :: nat
    assume "0 \<le> p \<and> (0 = 2 * p + 1 \<or> 0 = 2 * p + 2) \<and> (c = 2 * 0 + 1 \<or> c = 2 * 0 + 2) \<and> c < Suc i"
    then show "k (ys ! (first + c)) \<le> k (ys ! (first + p))" by simp
  qed
  have hz: "heapFrom k zs first 0 (Suc i)"
    unfolding zs_def using Suc.prems(1) al _ _ by (rule siftDown_heap) (use lx ly in auto)
  \<comment> \<open>every element of the shorter heap comes from the longer one\<close>
  have from_x: "\<exists>m'. first \<le> m' \<and> m' < first + Suc (Suc i) \<and> zs ! m = xs ! m'"
    if m: "first \<le> m" "m < first + Suc i" for m
  proof -
    obtain m1 where m1: "first \<le> m1" "m1 < first + Suc i" "zs ! m = ys ! m1"
      using rperm_nth_ex [OF ryz' _ _ m] lx ly by auto
    obtain m2 where m2: "first \<le> m2" "m2 < first + Suc (Suc i)" "ys ! m1 = xs ! m2"
      using rperm_nth_ex [OF rxy' _ _ m1(1)] m1(2) lx by auto
    with m1 show ?thesis by auto
  qed
  have sz: "rsorted k zs (first + Suc i) (first + hi)"
    unfolding rsorted_def
  proof (intro allI impI)
    fix m n assume mn: "first + Suc i \<le> m \<and> m \<le> n \<and> n < first + hi"
    have zm: "zs ! m = ys ! m" and zn: "zs ! n = ys ! n"
      using mn Suc.prems(2) by (auto intro: nz)
    show "k (zs ! m) \<le> k (zs ! n)"
    proof (cases "m = first + Suc i")
      case True
      show ?thesis
      proof (cases "n = m")
        case True
        then show ?thesis by simp
      next
        case False
        have "k (xs ! first) \<le> k (xs ! n)"
          using Suc.prems(6) mn True False by simp
        then show ?thesis using zm zn True False mn by (simp add: ny)
      qed
    next
      case False
      have "k (xs ! m) \<le> k (xs ! n)"
        using Suc.prems(5) mn False
        by (intro rsortedD [of k xs "first + Suc (Suc i)" "first + hi"]) auto
      then show ?thesis using zm zn False mn by (simp add: ny)
    qed
  qed
  have cz: "\<forall>m n. first \<le> m \<and> m \<le> first + i \<and> first + i < n \<and> n < first + hi
          \<longrightarrow> k (zs ! m) \<le> k (zs ! n)"
  proof (intro allI impI)
    fix m n assume mn: "first \<le> m \<and> m \<le> first + i \<and> first + i < n \<and> n < first + hi"
    obtain m' where m': "first \<le> m'" "m' < first + Suc (Suc i)" "zs ! m = xs ! m'"
      using from_x [of m] mn by auto
    have zn: "zs ! n = ys ! n" using mn Suc.prems(2) by (auto intro: nz)
    show "k (zs ! m) \<le> k (zs ! n)"
    proof (cases "n = first + Suc i")
      case True
      have "k (xs ! (first + (m' - first))) \<le> k (xs ! first)"
        using m' by (intro root) auto
      then show ?thesis using zn True m' by (simp add: ny)
    next
      case False
      have "k (xs ! m') \<le> k (xs ! n)" using Suc.prems(6) m' mn False by simp
      then show ?thesis using zn False mn m' by (simp add: ny)
    qed
  qed
  have "rperm first (first + hi) zs (heapPop lt zs first i)
      \<and> rsorted k (heapPop lt zs first i) first (first + hi)"
    using Suc.prems(1) _ _ hz sz cz by (rule Suc.IH) (use Suc.prems(2,3) lz in auto)
  moreover have "heapPop lt xs first (Suc i) = heapPop lt zs first i"
    by (simp add: ys_def zs_def)
  moreover have "rperm first (first + hi) xs zs" using rxy ryz by (rule rperm_trans)
  ultimately show ?case by (auto elim: rperm_trans)
qed

lemma heapSort_spec:
  assumes "keyed lt k" and "a < b" and "b \<le> length xs"
  shows "rperm a b xs (heapSort lt xs a b) \<and> rsorted k (heapSort lt xs a b) a b"
proof -
  define hi where "hi = b - a"
  define ys where "ys = heapBuild lt xs hi a ((hi - 1) div 2)"
  have hi: "0 < hi" "a + hi = b" using assms(2) by (auto simp: hi_def)
  have lx: "a + hi \<le> length xs" using hi assms(3) by simp
  have "heapFrom k xs a (Suc ((hi - 1) div 2)) hi"
    by (rule heapFrom_leaves) (use hi in presburger)
  with assms(1) lx have b: "rperm a (a + hi) xs ys \<and> heapFrom k ys a 0 hi"
    unfolding ys_def by (rule heapBuild_spec)
  have ly: "a + hi \<le> length ys" using b lx by (simp add: rperm_def)
  have "rperm a (a + hi) ys (heapPop lt ys a (hi - 1))
      \<and> rsorted k (heapPop lt ys a (hi - 1)) a (a + hi)"
  proof (rule heapPop_spec [OF assms(1) ly])
    show "hi - 1 < hi" using hi by simp
    show "heapFrom k ys a 0 (Suc (hi - 1))" using b hi by simp
    show "rsorted k ys (a + Suc (hi - 1)) (a + hi)" using hi by (auto simp: rsorted_def)
    show "\<forall>m n. a \<le> m \<and> m \<le> a + (hi - 1) \<and> a + (hi - 1) < n \<and> n < a + hi
        \<longrightarrow> k (ys ! m) \<le> k (ys ! n)" using hi by auto
  qed
  moreover have "heapSort lt xs a b = heapPop lt ys a (hi - 1)"
    using hi by (simp add: heapSort_def Let_def hi_def ys_def)
  ultimately show ?thesis using b hi by (auto elim: rperm_trans)
qed

section \<open>pdqsort and \<open>sort.Sort\<close>\<close>

text \<open>
  One round of the loop of \<open>pdqsort\<close> either finishes the range, sorted, or splits it
  around a position \<open>mid\<close>; the loop then sorts the parts. A range that does not start at 0
  is entered with \<open>lowerBound\<close>: the element just below it is not greater than any of its
  elements, which is what \<open>partialInsertionSort\<close> and \<open>partitionEqual\<close> rely on.
\<close>

lemma lowerBound_mono:
  "lowerBound k xs a b \<Longrightarrow> b' \<le> b \<Longrightarrow> lowerBound k xs a b'"
  by (auto simp: lowerBound_def)

lemma pdqRound_small:
  "b - a \<le> 12 \<Longrightarrow> pdqRound lt xs a b limit wb wp = Finished (insertionSort lt xs a b)"
  by (simp add: pdqRound_def)

lemma pdqRound_heap:
  "12 < b - a \<Longrightarrow> pdqRound lt xs a b 0 wb wp = Finished (heapSort lt xs a b)"
  by (simp add: pdqRound_def)

lemma pdqRound_prep:
  assumes key: "keyed lt k" and l: "12 < b - a" and lim: "limit \<noteq> 0" and bl: "b \<le> length xs"
    and lb: "lowerBound k xs a b"
  shows "\<exists>xs3 pivot srt limit1.
      rperm a b xs xs3 \<and> a \<le> pivot \<and> pivot < b \<and> (srt \<longrightarrow> rsorted k xs3 a b)
      \<and> pdqRound lt xs a b limit wb wp =
          (if srt then Finished xs3
           else if a > 0 \<and> \<not> lt (xs3 ! (a - 1)) (xs3 ! pivot) then
             (let (ys, mid) = partitionEqual lt xs3 a b pivot in EqualSplit ys mid limit1)
           else
             (let (ys, mid, ap) = partition_pdq lt xs3 a b pivot in Split ys mid ap limit1))"
proof -
  have ab: "a < b" "a \<le> b" using l by auto
  obtain xs1 limit1 where e1:
    "(if \<not> wb then (breakPatterns xs a b, limit - 1) else (xs, limit)) = (xs1, limit1)"
    by (metis surj_pair)
  have r1: "rperm a b xs xs1"
    using e1 breakPatterns_rperm [OF ab(2) bl] by (auto simp: rperm_refl split: if_splits)
  have l1: "b \<le> length xs1" using r1 bl by (simp add: rperm_def)
  obtain pv hint where cp: "choosePivot lt xs1 a b = (pv, hint)" by (metis surj_pair)
  have pvb: "a \<le> pv \<and> pv < b" using choosePivot_bounds [OF l, of lt xs1] cp by simp
  obtain xs2 pivot hint2 where e2:
    "(if hint = decreasingHint
      then (reverseRange xs1 a b, (b - 1) - (pv - a), increasingHint)
      else (xs1, pv, hint)) = (xs2, pivot, hint2)"
    by (metis prod_cases3)
  have r2: "rperm a b xs1 xs2"
    using e2 reverseRange_rperm [OF ab(1) l1] by (auto simp: rperm_refl split: if_splits)
  have pv2: "a \<le> pivot" "pivot < b" using e2 pvb by (auto split: if_splits)
  have l2: "b \<le> length xs2" using r2 l1 by (simp add: rperm_def)
  have r12: "rperm a b xs xs2" using r1 r2 by (rule rperm_trans)
  have lb2: "lowerBound k xs2 a b" using lb r12 ab(2) bl by (rule lowerBound_rperm)
  obtain xs3 srt where e3:
    "(if wb \<and> wp \<and> hint2 = increasingHint
      then partialInsertionSort lt xs2 a b else (xs2, False)) = (xs3, srt)"
    by (metis surj_pair)
  have r3: "rperm a b xs2 xs3 \<and> (srt \<longrightarrow> rsorted k xs3 a b)"
    using e3 partialInsertionSort_spec [OF key ab(1) l2 lb2]
    by (auto simp: rperm_refl split: if_splits)
  have r: "rperm a b xs xs3" using r12 r3 by (blast intro: rperm_trans)
  have "pdqRound lt xs a b limit wb wp =
          (if b - a \<le> 12 then Finished (insertionSort lt xs a b)
           else if limit = 0 then Finished (heapSort lt xs a b)
           else if srt then Finished xs3
           else if a > 0 \<and> \<not> lt (xs3 ! (a - 1)) (xs3 ! pivot) then
             (let (ys, mid) = partitionEqual lt xs3 a b pivot in EqualSplit ys mid limit1)
           else
             (let (ys, mid, ap) = partition_pdq lt xs3 a b pivot in Split ys mid ap limit1))"
    unfolding pdqRound_def Let_def e1 prod.case cp e2 e3 ..
  then have eq: "pdqRound lt xs a b limit wb wp =
          (if srt then Finished xs3
           else if a > 0 \<and> \<not> lt (xs3 ! (a - 1)) (xs3 ! pivot) then
             (let (ys, mid) = partitionEqual lt xs3 a b pivot in EqualSplit ys mid limit1)
           else
             (let (ys, mid, ap) = partition_pdq lt xs3 a b pivot in Split ys mid ap limit1))"
    using l lim by (simp only: not_le [symmetric] if_False)
  from r pv2 r3 eq show ?thesis by blast
qed

lemma pdqRound_Finished_spec:
  assumes key: "keyed lt k" and ab: "a \<le> b" and bl: "b \<le> length xs"
    and lb: "lowerBound k xs a b"
    and res: "pdqRound lt xs a b limit wb wp = Finished ys"
  shows "rperm a b xs ys \<and> rsorted k ys a b"
proof (cases "b - a \<le> 12")
  case True
  then have "ys = insertionSort lt xs a b" using res by (simp add: pdqRound_small)
  then show ?thesis using insertionSort_spec [OF key ab bl] by simp
next
  case False
  then have l: "12 < b - a" by simp
  show ?thesis
  proof (cases "limit = 0")
    case True
    then have "ys = heapSort lt xs a b" using res l by (simp add: pdqRound_heap)
    moreover have "a < b" using l by simp
    ultimately show ?thesis using heapSort_spec [OF key _ bl, of a] by simp
  next
    case False
    from pdqRound_prep [OF key l False bl lb, of wb wp]
    obtain xs3 pivot srt limit1 where p: "rperm a b xs xs3" "srt \<longrightarrow> rsorted k xs3 a b"
      and eq: "pdqRound lt xs a b limit wb wp =
          (if srt then Finished xs3
           else if a > 0 \<and> \<not> lt (xs3 ! (a - 1)) (xs3 ! pivot) then
             (let (ys, mid) = partitionEqual lt xs3 a b pivot in EqualSplit ys mid limit1)
           else
             (let (ys, mid, ap) = partition_pdq lt xs3 a b pivot in Split ys mid ap limit1))"
      by blast
    have "srt \<and> ys = xs3"
      using res unfolding eq by (auto simp: Let_def split: if_splits prod.splits)
    with p show ?thesis by simp
  qed
qed

lemma pdqRound_EqualSplit_spec:
  assumes key: "keyed lt k" and ab: "a \<le> b" and bl: "b \<le> length xs"
    and lb: "lowerBound k xs a b"
    and res: "pdqRound lt xs a b limit wb wp = EqualSplit ys mid limit'"
  shows "rperm a b xs ys \<and> a < mid \<and> mid \<le> b \<and> 0 < a
    \<and> (\<forall>n. a \<le> n \<and> n < mid \<longrightarrow> k (ys ! n) = k (ys ! (a - 1)))
    \<and> (\<forall>n. mid \<le> n \<and> n < b \<longrightarrow> k (ys ! (a - 1)) < k (ys ! n))"
proof -
  have l: "12 < b - a" using res by (cases "b - a \<le> 12") (simp_all add: pdqRound_small)
  have lim: "limit \<noteq> 0" using res l by (cases "limit = 0") (simp_all add: pdqRound_heap)
  have ab': "a < b" using l by simp
  from pdqRound_prep [OF key l lim bl lb, of wb wp]
  obtain xs3 pivot srt limit1 where p: "rperm a b xs xs3" "a \<le> pivot" "pivot < b"
    and eq: "pdqRound lt xs a b limit wb wp =
        (if srt then Finished xs3
         else if a > 0 \<and> \<not> lt (xs3 ! (a - 1)) (xs3 ! pivot) then
           (let (ys, mid) = partitionEqual lt xs3 a b pivot in EqualSplit ys mid limit1)
         else
           (let (ys, mid, ap) = partition_pdq lt xs3 a b pivot in Split ys mid ap limit1))"
    by blast
  have c: "a > 0 \<and> \<not> lt (xs3 ! (a - 1)) (xs3 ! pivot) \<and> partitionEqual lt xs3 a b pivot = (ys, mid)"
    using res unfolding eq by (auto simp: Let_def split: if_splits prod.splits)
  have l3: "b \<le> length xs3" using p(1) bl by (simp add: rperm_def)
  have lb3: "lowerBound k xs3 a b" using lb p(1) ab bl by (rule lowerBound_rperm)
  have pe: "rperm a b xs3 ys \<and> a < mid \<and> mid \<le> b
    \<and> (\<forall>n. a \<le> n \<and> n < mid \<longrightarrow> k (ys ! n) \<le> k (xs3 ! pivot))
    \<and> (\<forall>n. mid \<le> n \<and> n < b \<longrightarrow> k (xs3 ! pivot) < k (ys ! n))"
    using key ab' l3 p(2,3) by (rule partitionEqual_spec) (use c in simp)
  have lby: "lowerBound k ys a b" using lb3 _ ab l3 by (rule lowerBound_rperm) (use pe in simp)
  have "a - 1 < length xs3" "a - 1 < a" using ab' l3 c by auto
  then have ya: "ys ! (a - 1) = xs3 ! (a - 1)"
    using rperm_outside [of a b xs3 ys "a - 1"] pe by blast
  have pk: "k (xs3 ! pivot) = k (xs3 ! (a - 1))"
  proof -
    have "k (xs3 ! pivot) \<le> k (xs3 ! (a - 1))" using c key by (simp add: keyed_def not_less)
    moreover have "k (xs3 ! (a - 1)) \<le> k (xs3 ! pivot)"
      using lb3 c p(2,3) by (simp add: lowerBound_def)
    ultimately show ?thesis by simp
  qed
  have lo: "k (ys ! n) = k (ys ! (a - 1))" if "a \<le> n \<and> n < mid" for n
  proof -
    have "k (ys ! n) \<le> k (ys ! (a - 1))" using pe that pk ya by simp
    moreover have "k (ys ! (a - 1)) \<le> k (ys ! n)"
      using lby c that pe by (simp add: lowerBound_def)
    ultimately show ?thesis by simp
  qed
  have "rperm a b xs ys" using p(1) pe by (blast intro: rperm_trans)
  with pe c lo pk ya show ?thesis by simp
qed

lemma pdqRound_Split_spec:
  assumes key: "keyed lt k" and ab: "a \<le> b" and bl: "b \<le> length xs"
    and lb: "lowerBound k xs a b"
    and res: "pdqRound lt xs a b limit wb wp = Split ys mid ap limit'"
  shows "rperm a b xs ys \<and> a \<le> mid \<and> mid < b
    \<and> (\<forall>n. a \<le> n \<and> n < mid \<longrightarrow> k (ys ! n) < k (ys ! mid))
    \<and> (\<forall>n. mid < n \<and> n < b \<longrightarrow> k (ys ! mid) \<le> k (ys ! n))"
proof -
  have l: "12 < b - a" using res by (cases "b - a \<le> 12") (simp_all add: pdqRound_small)
  have lim: "limit \<noteq> 0" using res l by (cases "limit = 0") (simp_all add: pdqRound_heap)
  have ab': "a < b" using l by simp
  from pdqRound_prep [OF key l lim bl lb, of wb wp]
  obtain xs3 pivot srt limit1 where p: "rperm a b xs xs3" "a \<le> pivot" "pivot < b"
    and eq: "pdqRound lt xs a b limit wb wp =
        (if srt then Finished xs3
         else if a > 0 \<and> \<not> lt (xs3 ! (a - 1)) (xs3 ! pivot) then
           (let (ys, mid) = partitionEqual lt xs3 a b pivot in EqualSplit ys mid limit1)
         else
           (let (ys, mid, ap) = partition_pdq lt xs3 a b pivot in Split ys mid ap limit1))"
    by blast
  have c: "partition_pdq lt xs3 a b pivot = (ys, mid, ap)"
    using res unfolding eq by (auto simp: Let_def split: if_splits prod.splits)
  have l3: "b \<le> length xs3" using p(1) bl by (simp add: rperm_def)
  have pe: "rperm a b xs3 ys \<and> a \<le> mid \<and> mid < b
    \<and> (\<forall>n. a \<le> n \<and> n < mid \<longrightarrow> k (ys ! n) < k (ys ! mid))
    \<and> (\<forall>n. mid < n \<and> n < b \<longrightarrow> k (ys ! mid) \<le> k (ys ! n))"
    using key ab' l3 p(2,3) c by (rule partition_spec)
  have "rperm a b xs ys" using p(1) pe by (blast intro: rperm_trans)
  with pe show ?thesis by simp
qed

lemma rperm_disjoint:
  assumes 1: "rperm a1 b1 xs ys" and 2: "rperm a2 b2 ys zs" and d: "b1 \<le> a2 \<or> b2 \<le> a1"
    and b: "a1 \<le> b1" "b1 \<le> length xs" "a2 \<le> b2" "b2 \<le> length xs"
  shows "(\<forall>n. a1 \<le> n \<and> n < b1 \<longrightarrow> (\<exists>m. a1 \<le> m \<and> m < b1 \<and> zs ! n = xs ! m))
    \<and> (\<forall>n. a2 \<le> n \<and> n < b2 \<longrightarrow> (\<exists>m. a2 \<le> m \<and> m < b2 \<and> zs ! n = xs ! m))"
proof (intro conjI allI impI)
  have ly: "length ys = length xs" using 1 by (simp add: rperm_def)
  {
    fix n assume n: "a1 \<le> n \<and> n < b1"
    have "zs ! n = ys ! n" using rperm_outside [OF 2, of n] n d b ly by auto
    moreover obtain m where "a1 \<le> m" "m < b1" "ys ! n = xs ! m"
      using rperm_nth_ex [OF 1 b(1,2), of n] n by blast
    ultimately show "\<exists>m. a1 \<le> m \<and> m < b1 \<and> zs ! n = xs ! m" by auto
  }
  {
    fix n assume n: "a2 \<le> n \<and> n < b2"
    obtain m where m: "a2 \<le> m" "m < b2" "zs ! n = ys ! m"
      using rperm_nth_ex [OF 2 b(3), of n] n b(4) ly by auto
    have "ys ! m = xs ! m" using rperm_outside [OF 1, of m] m d b by auto
    with m show "\<exists>m. a2 \<le> m \<and> m < b2 \<and> zs ! n = xs ! m" by auto
  }
qed

lemma rsorted_join:
  assumes "rsorted k zs a mid" and "rsorted k zs (mid + 1) b"
    and "\<forall>n. a \<le> n \<and> n < mid \<longrightarrow> k (zs ! n) \<le> k (zs ! mid)"
    and "\<forall>n. mid < n \<and> n < b \<longrightarrow> k (zs ! mid) \<le> k (zs ! n)"
  shows "rsorted k zs a b"
  unfolding rsorted_def
proof (intro allI impI)
  fix i j assume ij: "a \<le> i \<and> i \<le> j \<and> j < b"
  consider "j < mid" | "i < mid" "j = mid" | "i < mid" "mid < j" | "i = mid" "j = mid"
    | "i = mid" "mid < j" | "mid < i"
    using ij by linarith
  then show "k (zs ! i) \<le> k (zs ! j)"
  proof cases
    case 1
    then show ?thesis using assms(1) ij by (intro rsortedD [of k zs a mid]) auto
  next
    case 2
    then show ?thesis using assms(3) ij by simp
  next
    case 3
    have "k (zs ! i) \<le> k (zs ! mid)" using assms(3) ij 3 by simp
    moreover have "k (zs ! mid) \<le> k (zs ! j)" using assms(4) ij 3 by simp
    ultimately show ?thesis by simp
  next
    case 4
    then show ?thesis by simp
  next
    case 5
    then show ?thesis using assms(4) ij by simp
  next
    case 6
    then show ?thesis using assms(2) ij by (intro rsortedD [of k zs "mid + 1" b]) auto
  qed
qed

lemma split_done:
  assumes ys: "a \<le> mid" "mid < b" "b \<le> length ys"
    and lo: "\<forall>n. a \<le> n \<and> n < mid \<longrightarrow> k (ys ! n) < k (ys ! mid)"
    and hi: "\<forall>n. mid < n \<and> n < b \<longrightarrow> k (ys ! mid) \<le> k (ys ! n)"
    and 1: "rperm a1 b1 ys us" and 2: "rperm a2 b2 us zs"
    and r: "(a1 = a \<and> b1 = mid \<and> a2 = mid + 1 \<and> b2 = b)
              \<or> (a1 = mid + 1 \<and> b1 = b \<and> a2 = a \<and> b2 = mid)"
    and s1: "rsorted k us a1 b1" and s2: "rsorted k zs a2 b2"
  shows "rperm a b ys zs \<and> rsorted k zs a b"
proof -
  have lu: "length us = length ys" using 1 by (simp add: rperm_def)
  have d: "b1 \<le> a2 \<or> b2 \<le> a1" using r by auto
  have b: "a1 \<le> b1" "b1 \<le> length ys" "a2 \<le> b2" "b2 \<le> length ys" using r ys by auto
  have "rperm a b ys us" by (rule rperm_mono [OF 1]) (use r ys in auto)
  moreover have "rperm a b us zs" by (rule rperm_mono [OF 2]) (use r ys in auto)
  ultimately have p: "rperm a b ys zs" by (rule rperm_trans)
  have ex: "(\<forall>n. a1 \<le> n \<and> n < b1 \<longrightarrow> (\<exists>m. a1 \<le> m \<and> m < b1 \<and> zs ! n = ys ! m))
    \<and> (\<forall>n. a2 \<le> n \<and> n < b2 \<longrightarrow> (\<exists>m. a2 \<le> m \<and> m < b2 \<and> zs ! n = ys ! m))"
    using 1 2 d b by (rule rperm_disjoint)
  have exl: "\<exists>m. a \<le> m \<and> m < mid \<and> zs ! n = ys ! m" if "a \<le> n \<and> n < mid" for n
    using ex r that by auto
  have exr: "\<exists>m. mid < m \<and> m < b \<and> zs ! n = ys ! m" if "mid < n \<and> n < b" for n
  proof -
    have "\<exists>m. mid + 1 \<le> m \<and> m < b \<and> zs ! n = ys ! m" using ex r that by auto
    then obtain m where m: "mid + 1 \<le> m" "m < b" "zs ! n = ys ! m" by blast
    then have "mid < m" by simp
    with m show ?thesis by blast
  qed
  have zm: "zs ! mid = ys ! mid"
  proof -
    have "us ! mid = ys ! mid" using rperm_outside [OF 1, of mid] r ys by auto
    moreover have "zs ! mid = us ! mid" using rperm_outside [OF 2, of mid] r ys lu by auto
    ultimately show ?thesis by simp
  qed
  have s1z: "rsorted k zs a1 b1"
  proof (rule rsorted_cong [OF s1], intro allI impI)
    fix i assume "a1 \<le> i \<and> i < b1"
    then show "zs ! i = us ! i" using rperm_outside [OF 2, of i] d b lu by auto
  qed
  have sl: "rsorted k zs a mid" and sr: "rsorted k zs (mid + 1) b"
    using r s1z s2 by auto
  have lo': "\<forall>n. a \<le> n \<and> n < mid \<longrightarrow> k (zs ! n) \<le> k (zs ! mid)"
  proof (intro allI impI)
    fix n assume "a \<le> n \<and> n < mid"
    then obtain m where "a \<le> m \<and> m < mid" "zs ! n = ys ! m" using exl by blast
    then show "k (zs ! n) \<le> k (zs ! mid)" using lo zm by (simp add: less_imp_le)
  qed
  have hi': "\<forall>n. mid < n \<and> n < b \<longrightarrow> k (zs ! mid) \<le> k (zs ! n)"
  proof (intro allI impI)
    fix n assume "mid < n \<and> n < b"
    then obtain m where "mid < m \<and> m < b" "zs ! n = ys ! m" using exr by blast
    then show "k (zs ! mid) \<le> k (zs ! n)" using hi zm by simp
  qed
  from sl sr lo' hi' have "rsorted k zs a b" by (rule rsorted_join)
  with p show ?thesis by simp
qed

lemma pdqLoop_spec:
  "keyed lt k \<Longrightarrow> a \<le> b \<Longrightarrow> b \<le> length xs \<Longrightarrow> lowerBound k xs a b
    \<Longrightarrow> rperm a b xs (pdqLoop lt xs a b limit wb wp)
        \<and> rsorted k (pdqLoop lt xs a b limit wb wp) a b"
proof (induction "b - a" arbitrary: xs a b limit wb wp rule: less_induct)
  case less
  note key = less.prems(1) and ab = less.prems(2) and bl = less.prems(3) and lb = less.prems(4)
  show ?case
  proof (cases "pdqRound lt xs a b limit wb wp")
    case (Finished ys)
    then have "pdqLoop lt xs a b limit wb wp = ys" by (subst pdqLoop.simps) simp
    then show ?thesis using pdqRound_Finished_spec [OF key ab bl lb Finished] by simp
  next
    case (EqualSplit ys mid limit')
    have e: "pdqLoop lt xs a b limit wb wp = pdqLoop lt ys mid b limit' wb wp"
      using EqualSplit by (subst pdqLoop.simps) simp
    have sp: "rperm a b xs ys" "a < mid" "mid \<le> b" "0 < a"
      "\<forall>n. a \<le> n \<and> n < mid \<longrightarrow> k (ys ! n) = k (ys ! (a - 1))"
      "\<forall>n. mid \<le> n \<and> n < b \<longrightarrow> k (ys ! (a - 1)) < k (ys ! n)"
      using pdqRound_EqualSplit_spec [OF key ab bl lb EqualSplit] by auto
    have ly: "b \<le> length ys" using sp(1) bl by (simp add: rperm_def)
    have lby: "lowerBound k ys mid b"
      unfolding lowerBound_def
    proof (intro disjI2 allI impI)
      fix n assume n: "mid \<le> n \<and> n < b"
      have "k (ys ! (mid - 1)) = k (ys ! (a - 1))" using sp(2,5) by simp
      then show "k (ys ! (mid - 1)) \<le> k (ys ! n)" using sp(6) n by (simp add: less_imp_le)
    qed
    define zs where "zs = pdqLoop lt ys mid b limit' wb wp"
    have ih: "rperm mid b ys zs \<and> rsorted k zs mid b"
      unfolding zs_def using sp(2,3) ab by (intro less.hyps key ly lby) auto
    have ryz: "rperm a b ys zs" by (rule rperm_mono [OF conjunct1 [OF ih]]) (use sp in auto)
    have zl: "zs ! n = ys ! n" if "n < mid" for n
      using rperm_outside [OF conjunct1 [OF ih], of n] that sp(3) ly by simp
    have zr: "\<exists>m. mid \<le> m \<and> m < b \<and> zs ! n = ys ! m" if "mid \<le> n" "n < b" for n
      using rperm_nth_ex [OF conjunct1 [OF ih] sp(3) ly that] .
    have "rsorted k zs a b"
      unfolding rsorted_def
    proof (intro allI impI)
      fix i j assume ij: "a \<le> i \<and> i \<le> j \<and> j < b"
      consider "j < mid" | "i < mid" "mid \<le> j" | "mid \<le> i" using ij by linarith
      then show "k (zs ! i) \<le> k (zs ! j)"
      proof cases
        case 1
        then show ?thesis using ij sp(5) by (simp add: zl)
      next
        case 2
        obtain m where m: "mid \<le> m" "m < b" "zs ! j = ys ! m" using zr [of j] 2 ij by blast
        have "k (zs ! i) = k (ys ! (a - 1))" using 2 ij sp(5) by (simp add: zl)
        moreover have "k (ys ! (a - 1)) < k (zs ! j)" using m sp(6) by simp
        ultimately show ?thesis by simp
      next
        case 3
        then show ?thesis using ih ij by (intro rsortedD [of k zs mid b]) auto
      qed
    qed
    moreover have "rperm a b xs zs" using sp(1) ryz by (rule rperm_trans)
    ultimately show ?thesis unfolding e zs_def by simp
  next
    case (Split ys mid ap limit')
    have sp: "rperm a b xs ys" "a \<le> mid" "mid < b"
      "\<forall>n. a \<le> n \<and> n < mid \<longrightarrow> k (ys ! n) < k (ys ! mid)"
      "\<forall>n. mid < n \<and> n < b \<longrightarrow> k (ys ! mid) \<le> k (ys ! n)"
      using pdqRound_Split_spec [OF key ab bl lb Split] by auto
    have ly: "b \<le> length ys" using sp(1) bl by (simp add: rperm_def)
    have lby: "lowerBound k ys a b" using lb sp(1) ab bl by (rule lowerBound_rperm)
    have lbl: "lowerBound k ys a mid" using lby by (rule lowerBound_mono) (use sp in simp)
    have lbr: "lowerBound k ys (mid + 1) b" using sp(5) by (simp add: lowerBound_def)
    show ?thesis
    proof (cases "mid - a < b - mid")
      case True
      define us where "us = pdqLoop lt ys a mid limit' True True"
      define zs where "zs = pdqLoop lt us (mid + 1) b limit' ((b - a) div 8 \<le> mid - a) ap"
      have e: "pdqLoop lt xs a b limit wb wp = zs"
        using Split True by (subst pdqLoop.simps) (simp add: Let_def us_def zs_def)
      have ih1: "rperm a mid ys us \<and> rsorted k us a mid"
        unfolding us_def using sp(2,3) ly by (intro less.hyps key lbl) auto
      have lu: "length us = length ys" using ih1 by (simp add: rperm_def)
      have lbu: "lowerBound k us (mid + 1) b"
        unfolding lowerBound_def
      proof (intro disjI2 allI impI)
        fix n assume n: "mid + 1 \<le> n \<and> n < b"
        have "us ! mid = ys ! mid" using rperm_outside [OF conjunct1 [OF ih1], of mid] sp ly by simp
        moreover have "us ! n = ys ! n" using rperm_outside [OF conjunct1 [OF ih1], of n] n ly by simp
        ultimately show "k (us ! (mid + 1 - 1)) \<le> k (us ! n)" using sp(5) n by simp
      qed
      have ih2: "rperm (mid + 1) b us zs \<and> rsorted k zs (mid + 1) b"
        unfolding zs_def using sp(2,3) ly lu by (intro less.hyps key lbu) auto
      have "rperm a b ys zs \<and> rsorted k zs a b"
        using sp(2,3) ly sp(4,5) conjunct1 [OF ih1] conjunct1 [OF ih2] _ conjunct2 [OF ih1]
          conjunct2 [OF ih2]
        by (rule split_done) simp
      then show ?thesis unfolding e using sp(1) by (blast intro: rperm_trans)
    next
      case False
      define us where "us = pdqLoop lt ys (mid + 1) b limit' True True"
      define zs where "zs = pdqLoop lt us a mid limit' ((b - a) div 8 \<le> b - mid) ap"
      have e: "pdqLoop lt xs a b limit wb wp = zs"
        using Split False by (subst pdqLoop.simps) (simp add: Let_def us_def zs_def)
      have ih1: "rperm (mid + 1) b ys us \<and> rsorted k us (mid + 1) b"
        unfolding us_def using sp(2,3) ly by (intro less.hyps key lbr) auto
      have lu: "length us = length ys" using ih1 by (simp add: rperm_def)
      have lbu: "lowerBound k us a mid"
      proof (cases "a = 0")
        case True
        then show ?thesis by (simp add: lowerBound_def)
      next
        case False
        have "us ! n = ys ! n" if "n < mid" for n
          using rperm_outside [OF conjunct1 [OF ih1], of n] that sp ly by simp
        then show ?thesis using lbl False sp(2) by (simp add: lowerBound_def)
      qed
      have ih2: "rperm a mid us zs \<and> rsorted k zs a mid"
        unfolding zs_def using sp(2,3) ly lu by (intro less.hyps key lbu) auto
      have "rperm a b ys zs \<and> rsorted k zs a b"
        using sp(2,3) ly sp(4,5) conjunct1 [OF ih1] conjunct1 [OF ih2] _ conjunct2 [OF ih1]
          conjunct2 [OF ih2]
        by (rule split_done) simp
      then show ?thesis unfolding e using sp(1) by (blast intro: rperm_trans)
    qed
  qed
qed

lemma Sort_spec:
  assumes "keyed lt k"
  shows "mset (Sort lt xs) = mset xs \<and> length (Sort lt xs) = length xs
    \<and> sorted (map k (Sort lt xs))"
proof (cases "length xs \<le> 1")
  case True
  then have "Sort lt xs = xs" by (simp add: Sort_def)
  moreover have "sorted (map k xs)"
    using True by (cases xs) (auto simp: le_Suc_eq)
  ultimately show ?thesis by simp
next
  case False
  define ys where "ys = pdqLoop lt xs 0 (length xs) (bitsLen (length xs)) True True"
  have "rperm 0 (length xs) xs ys \<and> rsorted k ys 0 (length xs)"
    unfolding ys_def using assms by (intro pdqLoop_spec) (auto simp: lowerBound_def)
  moreover have "Sort lt xs = ys" using False by (simp add: Sort_def pdqsort_def ys_def Let_def)
  ultimately show ?thesis using rsorted_whole [of k ys] by (auto simp: rperm_def)
qed

section \<open>The comparison and small tables\<close>

lemma sint_inj: "sint (a :: 'a::len word) = sint b \<longleftrightarrow> a = b"
proof
  assume "sint a = sint b"
  then have "(of_int (sint a) :: 'a word) = of_int (sint b)" by simp
  then show "a = b" by simp
qed simp

lemma keyed_rtLess: "keyed rtLess sortKey"
  unfolding keyed_def
proof (intro allI)
  fix x y
  show "rtLess x y = (sortKey x < sortKey y)"
    by (auto simp: rtLess_def sortKey_def Let_def less_prod_def less_eq_prod_def
        sint_inj [symmetric])
qed

lemma sameKeys_sortKey: "sameKeys e x = (sortKey x = sortKey e)"
  by (auto simp: sameKeys_def sortKey_def sint_inj)

lemma pdqLoop_small:
  "b - a \<le> 12 \<Longrightarrow> pdqLoop lt xs a b limit wb wp = insertionSort lt xs a b"
  by (subst pdqLoop.simps) (simp add: pdqRound_def)

lemma Sort_small: "length xs \<le> 12 \<Longrightarrow> Sort lt xs = insertionSort lt xs 0 (length xs)"
proof (cases "length xs \<le> 1")
  case True
  then have "insertionSort lt xs 0 (length xs) = xs"
    unfolding insertionSort_def by (subst insertFrom.simps) simp
  with True show ?thesis by (simp add: Sort_def)
next
  case False
  assume "length xs \<le> 12"
  with False show ?thesis by (simp add: Sort_def pdqsort_def pdqLoop_small)
qed

lemma Sort_two: "Sort lt [x, y] = (if lt y x then [y, x] else [x, y])"
proof -
  have "Sort lt [x, y] = insertionSort lt [x, y] 0 (Suc (Suc 0))"
    using Sort_small [of "[x, y]" lt] by simp
  also have "\<dots> = insertFrom lt (insertDown lt [x, y] 0 (Suc 0)) 0 (Suc (Suc 0)) (Suc (Suc 0))"
    unfolding insertionSort_def by (subst insertFrom.simps) simp
  also have "\<dots> = insertDown lt [x, y] 0 (Suc 0)" by (subst insertFrom.simps) simp
  also have "\<dots> = (if lt y x then insertDown lt [y, x] 0 0 else [x, y])"
    by (subst insertDown.simps) (simp add: Swap_def)
  also have "insertDown lt [y, x] 0 0 = [y, x]" by (subst insertDown.simps) simp
  finally show ?thesis .
qed

text \<open>
  C3. The table is built from the two entries 10.0.0.0/8 and 10.1.0.0/16, in either order,
  neither with a source or an input interface; whatever their other fields are, the sort
  puts the /16 entry first and the lookup of 10.1.2.3 matches it.
\<close>

theorem longest_prefix_match:
  assumes e8: "Dst e8 = \<lparr>IP = Some [10, 0, 0, 0], Mask = CIDRMask 8 32\<rparr>"
    and e16: "Dst e16 = \<lparr>IP = Some [10, 1, 0, 0], Mask = CIDRMask 16 32\<rparr>"
      "Src e16 = zeroIPNet" "InputIface e16 = 0"
    and dst: "To4 dst = Some [10, 1, 2, 3]"
    and supplied: "v4 r = [e8, e16] \<or> v4 r = [e16, e8]"
  shows "v4 (sortRoutes r) = [e16, e8]
    \<and> matchLoop input None dst (v4 (sortRoutes r)) = Some e16"
proof -
  have m8: "countMaskOnes (CIDRMask 8 32) = 8" by code_simp
  have m16: "countMaskOnes (CIDRMask 16 32) = 16" by code_simp
  have l1: "rtLess e16 e8" using e8 e16(1) m8 m16 by (simp add: rtLess_def)
  have l2: "\<not> rtLess e8 e16" using e8 e16(1) m8 m16 by (simp add: rtLess_def)
  have s: "v4 (sortRoutes r) = [e16, e8]"
    using supplied l1 l2 by (auto simp: sortRoutes_def Sort_two)
  have t: "To4 (Some [10, 1, 0, 0]) = Some [10, 1, 0, 0]" by code_simp
  have k: "CIDRMask 16 32 = Some [255, 255, 0, 0]" by code_simp
  have q: "maskedEqual [10, 1, 0, 0] [255, 255, 0, 0] [10, 1, 2, 3]" by code_simp
  have "Contains (Dst e16) dst = maskedEqual [10, 1, 0, 0] [255, 255, 0, 0] [10, 1, 2, 3]"
    using e16(1) t k dst by (intro Contains_v4) simp_all
  then have c: "Contains (Dst e16) dst" using q by simp
  have "matchLoop input None dst [e16, e8] = Some e16"
    using c e16(2,3) Contains_zero_nil by simp
  with s show ?thesis by simp
qed

theorem longest_prefix_match_witness:
  "matchLoop 0 None (Some [10, 1, 2, 3])
     (v4 (sortRoutes \<lparr>ifaces = [], addrs = [],
        v4 = [zero_rtInfo\<lparr>Dst := \<lparr>IP = Some [10, 0, 0, 0], Mask = CIDRMask 8 32\<rparr>\<rparr>,
              zero_rtInfo\<lparr>Dst := \<lparr>IP = Some [10, 1, 0, 0], Mask = CIDRMask 16 32\<rparr>\<rparr>],
        v6 = []\<rparr>))
   = Some (zero_rtInfo\<lparr>Dst := \<lparr>IP = Some [10, 1, 0, 0], Mask = CIDRMask 16 32\<rparr>\<rparr>)"
proof -
  let ?e8 = "zero_rtInfo\<lparr>Dst := \<lparr>IP = Some [10, 0, 0, 0], Mask = CIDRMask 8 32\<rparr>\<rparr>"
  let ?e16 = "zero_rtInfo\<lparr>Dst := \<lparr>IP = Some [10, 1, 0, 0], Mask = CIDRMask 16 32\<rparr>\<rparr>"
  let ?r = "\<lparr>ifaces = [], addrs = [], v4 = [?e8, ?e16], v6 = []\<rparr>"
  have 1: "Dst ?e8 = \<lparr>IP = Some [10, 0, 0, 0], Mask = CIDRMask 8 32\<rparr>" by simp
  have 2: "Dst ?e16 = \<lparr>IP = Some [10, 1, 0, 0], Mask = CIDRMask 16 32\<rparr>" by simp
  have 3: "Src ?e16 = zeroIPNet" by (simp add: zero_rtInfo_def)
  have 4: "InputIface ?e16 = 0" by (simp add: zero_rtInfo_def)
  have 5: "To4 (Some [10, 1, 2, 3]) = Some [10, 1, 2, 3]" by code_simp
  have 6: "v4 ?r = [?e8, ?e16] \<or> v4 ?r = [?e16, ?e8]" by simp
  from longest_prefix_match [OF 1 2 3 4 5 6, of 0, THEN conjunct2] show ?thesis .
qed

section \<open>The order of a built table\<close>

text \<open>
  \<open>countMaskOnes\<close> counts all the one bits of a mask. Both variants of \<open>setupRouteTable\<close> take
  the mask of a destination from \<open>net.CIDRMask\<close>, or leave it nil, and for these masks the
  count is the prefix length.
\<close>

lemma clearBits_add: "clearBits each cnt = cnt + clearBits each 0"
proof (induction "unat each" arbitrary: each cnt rule: less_induct)
  case less
  show ?case
  proof (cases "each = 0")
    case True
    have "clearBits each cnt = cnt" using True by (subst clearBits.simps) simp
    moreover have "clearBits each 0 = 0" using True by (subst clearBits.simps) simp
    ultimately show ?thesis by simp
  next
    case False
    define e where "e = each AND (each - 1)"
    have "e \<le> each - 1" unfolding e_def by (rule word_and_le1)
    moreover have "each - 1 < each"
      using False by (simp add: word_less_nat_alt unat_minus_one unat_gt_0)
    ultimately have "e < each" by simp
    then have lt: "unat e < unat each" by (simp add: word_less_nat_alt)
    have 1: "clearBits each cnt = clearBits e (cnt + 1)"
      using False by (subst clearBits.simps) (simp add: e_def)
    have 2: "clearBits each 0 = clearBits e (0 + 1)"
      using False by (subst clearBits.simps) (simp add: e_def)
    have "clearBits e (cnt + 1) = (cnt + 1) + clearBits e 0" using lt by (rule less.hyps)
    moreover have "clearBits e (0 + 1) = (0 + 1) + clearBits e 0" using lt by (rule less.hyps)
    ultimately show ?thesis using 1 2 by simp
  qed
qed

lemma clearBits_full: "clearBits 0xff 0 = 8"
  by code_simp

lemma clearBits_partial:
  assumes "n < 8"
  shows "clearBits (NOT (drop_bit n (0xff :: byte))) 0 = n"
proof -
  from assms consider "n = 0" | "n = 1" | "n = 2" | "n = 3" | "n = 4" | "n = 5" | "n = 6"
    | "n = 7" by linarith
  then show ?thesis
  proof cases
    case 1 show ?thesis unfolding 1 by code_simp
  next
    case 2 show ?thesis unfolding 2 by code_simp
  next
    case 3 show ?thesis unfolding 3 by code_simp
  next
    case 4 show ?thesis unfolding 4 by code_simp
  next
    case 5 show ?thesis unfolding 5 by code_simp
  next
    case 6 show ?thesis unfolding 6 by code_simp
  next
    case 7 show ?thesis unfolding 7 by code_simp
  next
    case 8 show ?thesis unfolding 8 by code_simp
  qed
qed

lemma countOnesLoop_maskBytes:
  "n \<le> 8 * l \<Longrightarrow> countOnesLoop (maskBytes l n) cnt = cnt + n"
proof (induction l arbitrary: n cnt)
  case 0
  then show ?case by simp
next
  case (Suc l)
  show ?case
  proof (cases "n \<ge> 8")
    case True
    have "countOnesLoop (maskBytes (Suc l) n) cnt
        = countOnesLoop (maskBytes l (n - 8)) (clearBits 0xff cnt)"
      using True by simp
    also have "clearBits 0xff cnt = cnt + 8"
      using clearBits_add [of "0xff" cnt] clearBits_full by simp
    also have "countOnesLoop (maskBytes l (n - 8)) (cnt + 8) = (cnt + 8) + (n - 8)"
      using Suc.prems True by (intro Suc.IH) simp
    finally show ?thesis using True by simp
  next
    case False
    have "countOnesLoop (maskBytes (Suc l) n) cnt
        = countOnesLoop (maskBytes l 0) (clearBits (NOT (drop_bit n (0xff :: byte))) cnt)"
      using False by simp
    also have "clearBits (NOT (drop_bit n (0xff :: byte))) cnt = cnt + n"
      using clearBits_add [of "NOT (drop_bit n (0xff :: byte))" cnt] clearBits_partial [of n] False
      by simp
    also have "countOnesLoop (maskBytes l 0) (cnt + n) = (cnt + n) + 0"
      by (intro Suc.IH) simp
    finally show ?thesis by simp
  qed
qed

lemma bits_full: "map (bit (0xff :: byte)) [7, 6, 5, 4, 3, 2, 1, 0 :: nat] = replicate 8 True"
  by code_simp

lemma bits_partial:
  assumes "n < 8"
  shows "map (bit (NOT (drop_bit n (0xff :: byte)))) [7, 6, 5, 4, 3, 2, 1, 0 :: nat]
    = replicate n True @ False # replicate (7 - n) False"
proof -
  from assms consider "n = 0" | "n = 1" | "n = 2" | "n = 3" | "n = 4" | "n = 5" | "n = 6"
    | "n = 7" by linarith
  then show ?thesis
  proof cases
    case 1 show ?thesis unfolding 1 by code_simp
  next
    case 2 show ?thesis unfolding 2 by code_simp
  next
    case 3 show ?thesis unfolding 3 by code_simp
  next
    case 4 show ?thesis unfolding 4 by code_simp
  next
    case 5 show ?thesis unfolding 5 by code_simp
  next
    case 6 show ?thesis unfolding 6 by code_simp
  next
    case 7 show ?thesis unfolding 7 by code_simp
  next
    case 8 show ?thesis unfolding 8 by code_simp
  qed
qed

lemma takeWhile_ones:
  "takeWhile (\<lambda>b. b) (replicate n True @ ys) = replicate n True @ takeWhile (\<lambda>b. b) ys"
  by (induction n) simp_all

lemma leading_ones_maskBytes:
  "n \<le> 8 * l \<Longrightarrow> length (takeWhile (\<lambda>b. b) (maskBits (Some (maskBytes l n)))) = n"
proof (induction l arbitrary: n)
  case 0
  then show ?case by (simp add: maskBits_def elems_def)
next
  case (Suc l)
  show ?case
  proof (cases "n \<ge> 8")
    case True
    have "maskBits (Some (maskBytes (Suc l) n))
        = replicate 8 True @ maskBits (Some (maskBytes l (n - 8)))"
      using True bits_full by (simp add: maskBits_def elems_def)
    then have "takeWhile (\<lambda>b. b) (maskBits (Some (maskBytes (Suc l) n)))
        = replicate 8 True @ takeWhile (\<lambda>b. b) (maskBits (Some (maskBytes l (n - 8))))"
      by (simp only: takeWhile_ones)
    moreover have "length (takeWhile (\<lambda>b. b) (maskBits (Some (maskBytes l (n - 8))))) = n - 8"
      using Suc.prems True by (intro Suc.IH) simp
    ultimately show ?thesis using True by simp
  next
    case False
    then have n: "n < 8" by simp
    have "maskBits (Some (maskBytes (Suc l) n))
        = replicate n True @ False # (replicate (7 - n) False @ maskBits (Some (maskBytes l 0)))"
      using False bits_partial [OF n] by (simp add: maskBits_def elems_def)
    then have "takeWhile (\<lambda>b. b) (maskBits (Some (maskBytes (Suc l) n))) = replicate n True"
      by (simp only: takeWhile_ones) simp
    then show ?thesis by simp
  qed
qed

lemma countMaskOnes_CIDRMask:
  "countMaskOnes (CIDRMask ones bits)
     = length (takeWhile (\<lambda>b. b) (maskBits (CIDRMask ones bits)))"
proof (cases "CIDRMask ones bits")
  case None
  then show ?thesis by (simp add: countMaskOnes_def maskBits_def elems_def)
next
  case (Some bs)
  then have b: "bits = 32 \<or> bits = 128" and o: "0 \<le> ones" "ones \<le> bits"
    and bs: "bs = maskBytes (nat (bits div 8)) (nat ones)"
    by (auto simp: CIDRMask_def IPv4len_def IPv6len_def split: if_splits)
  have le: "nat ones \<le> 8 * nat (bits div 8)" using b o by auto
  have "countMaskOnes (Some bs) = nat ones"
    unfolding bs countMaskOnes_def elems_def using countOnesLoop_maskBytes [OF le, of 0] by simp
  moreover have "length (takeWhile (\<lambda>b. b) (maskBits (Some bs))) = nat ones"
    unfolding bs using le by (rule leading_ones_maskBytes)
  ultimately show ?thesis using Some by simp
qed

lemma countMaskOnes_None: "countMaskOnes None = length (takeWhile (\<lambda>b. b) (maskBits None))"
  by (simp add: countMaskOnes_def maskBits_def elems_def)

lemma attrLoop_prefixLength:
  "countMaskOnes (Mask (Dst ri)) = prefixLength ri
    \<Longrightarrow> countMaskOnes (Mask (Dst (attrLoop rt attrs ri))) = prefixLength (attrLoop rt attrs ri)"
proof (induction attrs arbitrary: ri)
  case Nil
  then show ?case by simp
next
  case (Cons attr rest)
  show ?case
    unfolding attrLoop.simps
    by (rule Cons.IH) (use Cons.prems in \<open>simp add: prefixLength_def countMaskOnes_CIDRMask\<close>)
qed

lemma linuxRouteInfo_prefixLength:
  "countMaskOnes (Mask (Dst (linuxRouteInfo rt attrs))) = prefixLength (linuxRouteInfo rt attrs)"
  unfolding linuxRouteInfo_def
  by (rule attrLoop_prefixLength)
    (simp add: prefixLength_def zero_rtInfo_def zeroIPNet_def countMaskOnes_None)

lemma msgLoop_prefixLength:
  "msgLoop msgs r = Inr r'
    \<Longrightarrow> \<forall>e \<in> set (v4 r) \<union> set (v6 r). countMaskOnes (Mask (Dst e)) = prefixLength e
    \<Longrightarrow> \<forall>e \<in> set (v4 r') \<union> set (v6 r'). countMaskOnes (Mask (Dst e)) = prefixLength e"
proof (induction msgs arbitrary: r)
  case Nil
  then show ?case by simp
next
  case (Cons m msgs)
  show ?case
  proof (cases "HeaderType m = NLMSG_DONE")
    case True
    then show ?thesis using Cons.prems by simp
  next
    case nd: False
    show ?thesis
    proof (cases "HeaderType m = RTM_NEWROUTE")
      case False
      then show ?thesis using nd Cons by simp
    next
      case True
      show ?thesis
      proof (cases "ParsedAttrs m")
        case (Inl err)
        then show ?thesis using nd True Cons.prems by simp
      next
        case (Inr attrs)
        define e where "e = linuxRouteInfo (Rtmsg m) attrs"
        have ee: "countMaskOnes (Mask (Dst e)) = prefixLength e"
          unfolding e_def by (rule linuxRouteInfo_prefixLength)
        consider "Family (Rtmsg m) \<noteq> AF_INET \<and> Family (Rtmsg m) \<noteq> AF_INET6"
          | "Family (Rtmsg m) = AF_INET" | "Family (Rtmsg m) \<noteq> AF_INET" "Family (Rtmsg m) = AF_INET6"
          by blast
        then show ?thesis
        proof cases
          case 1
          then have "msgLoop msgs r = Inr r'" using nd True Inr Cons.prems(1) by (simp add: Let_def)
          then show ?thesis using Cons.prems(2) by (rule Cons.IH)
        next
          case 2
          then have "msgLoop msgs (r\<lparr>v4 := v4 r @ [e]\<rparr>) = Inr r'"
            using nd True Inr Cons.prems(1) by (simp add: Let_def e_def)
          then show ?thesis by (rule Cons.IH) (use Cons.prems(2) ee in auto)
        next
          case 3
          then have "msgLoop msgs (r\<lparr>v6 := v6 r @ [e]\<rparr>) = Inr r'"
            using nd True Inr Cons.prems(1) by (simp add: Let_def e_def)
          then show ?thesis by (rule Cons.IH) (use Cons.prems(2) ee in auto)
        qed
      qed
    qed
  qed
qed

lemma windowsRouteInfo_prefixLength:
  "countMaskOnes (Mask (Dst (windowsRouteInfo4 row))) = prefixLength (windowsRouteInfo4 row)"
  "countMaskOnes (Mask (Dst (windowsRouteInfo6 row))) = prefixLength (windowsRouteInfo6 row)"
  by (simp_all add: windowsRouteInfo4_def windowsRouteInfo6_def prefixLength_def
      countMaskOnes_CIDRMask)

lemma sorted_sortKey_invariant:
  assumes "sorted (map sortKey rs)"
    and "\<forall>e \<in> set rs. countMaskOnes (Mask (Dst e)) = prefixLength e"
  shows "orderingInvariant rs"
proof -
  have "sorted_wrt (\<lambda>x y. sortKey x \<le> sortKey y) rs" using assms(1) by (simp add: sorted_map)
  then show ?thesis
    unfolding orderingInvariant_def
  proof (rule sorted_wrt_mono_rel [rotated])
    fix x y assume "x \<in> set rs" "y \<in> set rs" "sortKey x \<le> sortKey y"
    then show "prefixLength y \<le> prefixLength x
        \<and> (prefixLength x = prefixLength y
             \<longrightarrow> sint (Priority x) < sint (Priority y)
                 \<or> (sint (Priority x) = sint (Priority y)
                     \<and> sint (Metrics x) \<le> sint (Metrics y)))"
      using assms(2) by (auto simp: sortKey_def less_eq_prod_def)
  qed
qed

lemma sortRoutes_ordered:
  assumes "\<forall>e \<in> set (v4 r) \<union> set (v6 r). countMaskOnes (Mask (Dst e)) = prefixLength e"
  shows "orderingInvariant (v4 (sortRoutes r)) \<and> orderingInvariant (v6 (sortRoutes r))"
proof -
  have s: "mset (Sort rtLess rs) = mset rs \<and> sorted (map sortKey (Sort rtLess rs))" for rs
    using Sort_spec [OF keyed_rtLess, of rs] by simp
  have "orderingInvariant (Sort rtLess rs)"
    if "\<forall>e \<in> set rs. countMaskOnes (Mask (Dst e)) = prefixLength e" for rs
  proof (rule sorted_sortKey_invariant)
    show "sorted (map sortKey (Sort rtLess rs))" using s by simp
    have "set (Sort rtLess rs) = set rs" using s by (metis mset_eq_setD)
    then show "\<forall>e \<in> set (Sort rtLess rs). countMaskOnes (Mask (Dst e)) = prefixLength e"
      using that by simp
  qed
  then show ?thesis using assms by (simp add: sortRoutes_def)
qed

text \<open>
  C2. \<open>New\<close> hands \<open>setupRouteTable\<close> a router with empty tables. When \<open>setupRouteTable\<close>
  returns without an error, on Linux or on Windows, each of the two tables that it has
  built satisfies the ordering invariant: the prefix lengths of the destinations do not
  increase along the table, and among entries with the same prefix length the pairs
  (priority, metric) do not decrease in the lexicographic order. \<open>sort.Sort\<close> is the
  function transcribed above (Go 1.19 and later).
\<close>

theorem built_table_ordered:
  assumes "v4 r0 = []" and "v6 r0 = []"
    and "setupRouteTable_linux tab r0 = Inr r
         \<or> setupRouteTable_windows table4 table6 r0 = Inr r"
  shows "orderingInvariant (v4 r) \<and> orderingInvariant (v6 r)"
  using assms(3)
proof
  assume "setupRouteTable_linux tab r0 = Inr r"
  then obtain msgs r' where m: "msgLoop msgs r0 = Inr r'" and r: "r = sortRoutes r'"
    by (auto simp: setupRouteTable_linux_def split: sum.splits)
  have "\<forall>e \<in> set (v4 r') \<union> set (v6 r'). countMaskOnes (Mask (Dst e)) = prefixLength e"
    using m by (rule msgLoop_prefixLength) (use assms(1,2) in simp)
  then show ?thesis unfolding r by (rule sortRoutes_ordered)
next
  assume "setupRouteTable_windows table4 table6 r0 = Inr r"
  then obtain rows4 rows6 where
    r: "r = sortRoutes (r0\<lparr>v4 := v4 r0 @ map windowsRouteInfo4 rows4,
                           v6 := v6 r0 @ map windowsRouteInfo6 rows6\<rparr>)"
    by (auto simp: setupRouteTable_windows_def Let_def split: sum.splits)
  show ?thesis
    unfolding r
    by (rule sortRoutes_ordered) (use assms(1,2) in \<open>auto simp: windowsRouteInfo_prefixLength\<close>)
qed

theorem built_table_ordered_witness:
  "setupRouteTable_linux (Inr
     [\<lparr>HeaderType = RTM_NEWROUTE,
        Rtmsg = \<lparr>Family = 2, DstLen = 0, SrcLen = 0, TOS = 0, Table = 254, Protocol = 3,
                 Scope = 0, Type = 1, RtFlags = 0\<rparr>,
        ParsedAttrs = Inr [\<lparr>AttrType = RTA_GATEWAY, Value = [192, 168, 1, 1]\<rparr>,
                           \<lparr>AttrType = RTA_OIF, Value = [2, 0, 0, 0]\<rparr>]\<rparr>,
      \<lparr>HeaderType = RTM_NEWROUTE,
        Rtmsg = \<lparr>Family = 2, DstLen = 24, SrcLen = 0, TOS = 0, Table = 254, Protocol = 2,
                 Scope = 253, Type = 1, RtFlags = 0\<rparr>,
        ParsedAttrs = Inr [\<lparr>AttrType = RTA_DST, Value = [192, 168, 1, 0]\<rparr>,
                           \<lparr>AttrType = RTA_PRIORITY, Value = [100, 0, 0, 0]\<rparr>,
                           \<lparr>AttrType = RTA_OIF, Value = [2, 0, 0, 0]\<rparr>]\<rparr>,
      \<lparr>HeaderType = RTM_NEWROUTE,
        Rtmsg = \<lparr>Family = 10, DstLen = 64, SrcLen = 0, TOS = 0, Table = 254, Protocol = 2,
                 Scope = 0, Type = 1, RtFlags = 0\<rparr>,
        ParsedAttrs = Inr [\<lparr>AttrType = RTA_DST,
                             Value = [254, 128, 0, 0, 0, 0, 0, 0, 0, 0, 0, 0, 0, 0, 0, 0]\<rparr>,
                           \<lparr>AttrType = RTA_OIF, Value = [2, 0, 0, 0]\<rparr>]\<rparr>,
      \<lparr>HeaderType = RTM_NEWROUTE,
        Rtmsg = \<lparr>Family = 2, DstLen = 24, SrcLen = 0, TOS = 0, Table = 254, Protocol = 2,
                 Scope = 253, Type = 1, RtFlags = 0\<rparr>,
        ParsedAttrs = Inr [\<lparr>AttrType = RTA_DST, Value = [10, 0, 0, 0]\<rparr>,
                           \<lparr>AttrType = RTA_OIF, Value = [3, 0, 0, 0]\<rparr>]\<rparr>,
      \<lparr>HeaderType = NLMSG_DONE,
        Rtmsg = \<lparr>Family = 0, DstLen = 0, SrcLen = 0, TOS = 0, Table = 0, Protocol = 0,
                 Scope = 0, Type = 0, RtFlags = 0\<rparr>,
        ParsedAttrs = Inr []\<rparr>])
     \<lparr>ifaces = [], addrs = [], v4 = [], v6 = []\<rparr>
   = Inr \<lparr>ifaces = [], addrs = [],
       v4 = [zero_rtInfo\<lparr>Dst := \<lparr>IP = Some [10, 0, 0, 0], Mask = Some [255, 255, 255, 0]\<rparr>,
                         OutputIface := 3\<rparr>,
             zero_rtInfo\<lparr>Dst := \<lparr>IP = Some [192, 168, 1, 0], Mask = Some [255, 255, 255, 0]\<rparr>,
                         OutputIface := 2, Priority := 100\<rparr>,
             zero_rtInfo\<lparr>OutputIface := 2, Gateway := Some [192, 168, 1, 1]\<rparr>],
       v6 = [zero_rtInfo\<lparr>Dst := \<lparr>IP = Some [254, 128, 0, 0, 0, 0, 0, 0, 0, 0, 0, 0, 0, 0, 0, 0],
                                   Mask = Some [255, 255, 255, 255, 255, 255, 255, 255,
                                                0, 0, 0, 0, 0, 0, 0, 0]\<rparr>,
                         OutputIface := 2\<rparr>]\<rparr>
   \<and> orderingInvariant
       [zero_rtInfo\<lparr>Dst := \<lparr>IP = Some [10, 0, 0, 0], Mask = Some [255, 255, 255, 0]\<rparr>,
                    OutputIface := 3\<rparr>,
        zero_rtInfo\<lparr>Dst := \<lparr>IP = Some [192, 168, 1, 0], Mask = Some [255, 255, 255, 0]\<rparr>,
                    OutputIface := 2, Priority := 100\<rparr>,
        zero_rtInfo\<lparr>OutputIface := 2, Gateway := Some [192, 168, 1, 1]\<rparr>]"
proof -
  let ?msgs = "[\<lparr>HeaderType = RTM_NEWROUTE,
        Rtmsg = \<lparr>Family = 2, DstLen = 0, SrcLen = 0, TOS = 0, Table = 254, Protocol = 3,
                 Scope = 0, Type = 1, RtFlags = 0\<rparr>,
        ParsedAttrs = Inr [\<lparr>AttrType = RTA_GATEWAY, Value = [192, 168, 1, 1]\<rparr>,
                           \<lparr>AttrType = RTA_OIF, Value = [2, 0, 0, 0]\<rparr>]\<rparr>,
      \<lparr>HeaderType = RTM_NEWROUTE,
        Rtmsg = \<lparr>Family = 2, DstLen = 24, SrcLen = 0, TOS = 0, Table = 254, Protocol = 2,
                 Scope = 253, Type = 1, RtFlags = 0\<rparr>,
        ParsedAttrs = Inr [\<lparr>AttrType = RTA_DST, Value = [192, 168, 1, 0]\<rparr>,
                           \<lparr>AttrType = RTA_PRIORITY, Value = [100, 0, 0, 0]\<rparr>,
                           \<lparr>AttrType = RTA_OIF, Value = [2, 0, 0, 0]\<rparr>]\<rparr>,
      \<lparr>HeaderType = RTM_NEWROUTE,
        Rtmsg = \<lparr>Family = 10, DstLen = 64, SrcLen = 0, TOS = 0, Table = 254, Protocol = 2,
                 Scope = 0, Type = 1, RtFlags = 0\<rparr>,
        ParsedAttrs = Inr [\<lparr>AttrType = RTA_DST,
                             Value = [254, 128, 0, 0, 0, 0, 0, 0, 0, 0, 0, 0, 0, 0, 0, 0]\<rparr>,
                           \<lparr>AttrType = RTA_OIF, Value = [2, 0, 0, 0]\<rparr>]\<rparr>,
      \<lparr>HeaderType = RTM_NEWROUTE,
        Rtmsg = \<lparr>Family = 2, DstLen = 24, SrcLen = 0, TOS = 0, Table = 254, Protocol = 2,
                 Scope = 253, Type = 1, RtFlags = 0\<rparr>,
        ParsedAttrs = Inr [\<lparr>AttrType = RTA_DST, Value = [10, 0, 0, 0]\<rparr>,
                           \<lparr>AttrType = RTA_OIF, Value = [3, 0, 0, 0]\<rparr>]\<rparr>,
      \<lparr>HeaderType = NLMSG_DONE,
        Rtmsg = \<lparr>Family = 0, DstLen = 0, SrcLen = 0, TOS = 0, Table = 0, Protocol = 0,
                 Scope = 0, Type = 0, RtFlags = 0\<rparr>,
        ParsedAttrs = Inr []\<rparr>]"
  let ?init = "\<lparr>ifaces = [], addrs = [], v4 = [], v6 = []\<rparr>"
  let ?t4 = "[zero_rtInfo\<lparr>Dst := \<lparr>IP = Some [10, 0, 0, 0], Mask = Some [255, 255, 255, 0]\<rparr>,
                         OutputIface := 3\<rparr>,
             zero_rtInfo\<lparr>Dst := \<lparr>IP = Some [192, 168, 1, 0], Mask = Some [255, 255, 255, 0]\<rparr>,
                         OutputIface := 2, Priority := 100\<rparr>,
             zero_rtInfo\<lparr>OutputIface := 2, Gateway := Some [192, 168, 1, 1]\<rparr>]"
  let ?t6 = "[zero_rtInfo\<lparr>Dst := \<lparr>IP = Some [254, 128, 0, 0, 0, 0, 0, 0, 0, 0, 0, 0, 0, 0, 0, 0],
                                   Mask = Some [255, 255, 255, 255, 255, 255, 255, 255,
                                                0, 0, 0, 0, 0, 0, 0, 0]\<rparr>,
                         OutputIface := 2\<rparr>]"
  let ?r = "\<lparr>ifaces = [], addrs = [], v4 = ?t4, v6 = ?t6\<rparr>"
  have 1: "v4 ?init = []" and 2: "v6 ?init = []" by simp_all
  have e: "setupRouteTable_linux (Inr ?msgs) ?init = Inr ?r" by code_simp
  from built_table_ordered [OF 1 2 disjI1 [OF e]]
  have "orderingInvariant (v4 ?r)" by (rule conjunct1)
  then have "orderingInvariant ?t4" by simp
  with e show ?thesis by (rule conjI)
qed

section \<open>Entries that tie on all three keys\<close>

text \<open>
  C9 as the claim states it fails. Both variants of \<open>setupRouteTable\<close> call \<open>sort.Sort\<close>,
  which its documentation does not guarantee to be stable, and never \<open>sort.Stable\<close>. With
  the \<open>sort.Sort\<close> of Go 1.19 and later, as transcribed above: twelve entries for
  10.0.0.0/8 that tie on prefix length, priority and metric, numbered 0 to 11 by their
  output interface, are followed by one entry for 10.1.0.0/16. \<open>sort.Sort\<close> splits the
  thirteen entries around a pivot: entry 6 ends up before entry 0, and entry 1 last of
  all.
\<close>

theorem construction_not_stable_counterexample:
  "v4 (sortRoutes \<lparr>ifaces = [], addrs = [],
     v4 = map (\<lambda>k. zero_rtInfo\<lparr>Dst := \<lparr>IP = Some [10, 0, 0, 0], Mask = CIDRMask 8 32\<rparr>,
                                  OutputIface := k\<rparr>)
            [0, 1, 2, 3, 4, 5, 6, 7, 8, 9, 10, 11]
          @ [zero_rtInfo\<lparr>Dst := \<lparr>IP = Some [10, 1, 0, 0], Mask = CIDRMask 16 32\<rparr>,
                         OutputIface := 12\<rparr>],
     v6 = []\<rparr>)
   = zero_rtInfo\<lparr>Dst := \<lparr>IP = Some [10, 1, 0, 0], Mask = CIDRMask 16 32\<rparr>, OutputIface := 12\<rparr>
     # map (\<lambda>k. zero_rtInfo\<lparr>Dst := \<lparr>IP = Some [10, 0, 0, 0], Mask = CIDRMask 8 32\<rparr>,
                                OutputIface := k\<rparr>)
         [6, 2, 3, 4, 5, 0, 7, 8, 9, 10, 11, 1]"
  by code_simp

text \<open>
  C9, amended. Construction sorts each table with \<open>sort.Sort\<close>, and the sorted table holds
  exactly the entries that were supplied. The comparison that construction hands to
  \<open>sort.Sort\<close> defines no order between two entries that tie on prefix length, priority
  and metric: neither is less than the other, and these are the only pairs of entries of
  which neither is less. Where such entries end up relative to one another is left to
  \<open>sort.Sort\<close>, so their order in the built table is unspecified.
\<close>

theorem ties_are_unordered:
  "(\<not> rtLess e x \<and> \<not> rtLess x e) = sameKeys e x
   \<and> mset (v4 (sortRoutes r)) = mset (v4 r)
   \<and> mset (v6 (sortRoutes r)) = mset (v6 r)"
proof -
  have "rtLess e x = (sortKey e < sortKey x)" and "rtLess x e = (sortKey x < sortKey e)"
    using keyed_rtLess by (simp_all add: keyed_def)
  then have "(\<not> rtLess e x \<and> \<not> rtLess x e) = sameKeys e x"
    by (auto simp: sameKeys_sortKey)
  moreover have "mset (Sort rtLess rs) = mset rs" for rs
    using Sort_spec [OF keyed_rtLess, of rs] by simp
  ultimately show ?thesis by (simp add: sortRoutes_def)
qed

end
